theory Spec2Isabelle
  imports Main "HOL-Library.List_Lexorder" "HOL-Library.Char_ord"
begin

section \<open>The Flaticon scan-and-annotate pipeline\<close>

text \<open>
  A shallow embedding of the class \<open>FlaticonDatasets\<close> of
  \<^verbatim>\<open>.charles/qwenvl/flaticon_dataset_gen.py\<close>. The SQLite file is an explicit
  value that every method takes and returns; the file system, the captioning
  service and the wall clock are parameters collected in an environment; Python
  exceptions are values of the type \<open>error\<close>.
\<close>

subsection \<open>Python strings\<close>

datatype error = IndexError | ZeroDivisionError | OSError | ProviderError

text \<open>\<^verbatim>\<open>s.split(c)\<close>: the pieces between the occurrences of \<open>c\<close>; never empty.\<close>

fun split_on :: "char \<Rightarrow> string \<Rightarrow> string list" where
  "split_on c [] = [[]]"
| "split_on c (x # xs) =
     (if x = c then [] # split_on c xs
      else (case split_on c xs of [] \<Rightarrow> [[x]] | w # ws \<Rightarrow> (x # w) # ws))"

text \<open>\<^verbatim>\<open>c.join(segs)\<close>, the inverse of \<open>split_on\<close>.\<close>

definition join_on :: "char \<Rightarrow> string list \<Rightarrow> string" where
  "join_on c segs =
     (case segs of [] \<Rightarrow> [] | s # ss \<Rightarrow> s @ concat (map (\<lambda>t. c # t) ss))"

text \<open>\<^verbatim>\<open>s.rsplit(c, 1)\<close>: split once, at the last occurrence of \<open>c\<close>.\<close>

definition rsplit1 :: "char \<Rightarrow> string \<Rightarrow> string list" where
  "rsplit1 c s =
     (if c \<in> set s
      then [rev (tl (dropWhile (\<lambda>x. x \<noteq> c) (rev s))), rev (takeWhile (\<lambda>x. x \<noteq> c) (rev s))]
      else [s])"

text \<open>\<^verbatim>\<open>s.split(c, 1)\<close>: split once, at the first occurrence of \<open>c\<close>.\<close>

definition split1 :: "char \<Rightarrow> string \<Rightarrow> string list" where
  "split1 c s =
     (if c \<in> set s
      then [takeWhile (\<lambda>x. x \<noteq> c) s, tl (dropWhile (\<lambda>x. x \<noteq> c) s)]
      else [s])"

text \<open>\<^verbatim>\<open>xs[-k]\<close> for \<open>k > 0\<close>: raises \<open>IndexError\<close> out of range.\<close>

definition index_from_end :: "'a list \<Rightarrow> nat \<Rightarrow> error + 'a" where
  "index_from_end xs k =
     (if 0 < k \<and> k \<le> length xs then Inr (xs ! (length xs - k)) else Inl IndexError)"

text \<open>\<^verbatim>\<open>s.lower()\<close> on the ASCII letters, which is all the extensions contain.\<close>

definition lower_char :: "char \<Rightarrow> char" where
  "lower_char c =
     (if CHR ''A'' \<le> c \<and> c \<le> CHR ''Z'' then char_of (of_char c + (32::nat)) else c)"

definition lower :: "string \<Rightarrow> string" where
  "lower s = map lower_char s"

text \<open>\<^verbatim>\<open>s.endswith(suf)\<close>, and with a tuple of suffixes.\<close>

definition endswith :: "string \<Rightarrow> string \<Rightarrow> bool" where
  "endswith s suf = (length suf \<le> length s \<and> drop (length s - length suf) s = suf)"

definition endswith_any :: "string \<Rightarrow> string list \<Rightarrow> bool" where
  "endswith_any s sufs = list_ex (endswith s) sufs"

text \<open>\<^verbatim>\<open>os.path.join(a, b)\<close> of \<open>posixpath\<close>.\<close>

definition os_path_join :: "string \<Rightarrow> string \<Rightarrow> string" where
  "os_path_join a b =
     (if b \<noteq> [] \<and> hd b = CHR ''/'' then b
      else if a = [] \<or> last a = CHR ''/'' then a @ b
      else a @ CHR ''/'' # b)"

subsection \<open>PathParser\<close>

record metadata =
  collection :: string
  type :: string
  "file" :: string
  filename :: string

text \<open>
  \<open>_parse_image_path\<close>: the three subscripts are evaluated in the order of the
  source, each raising \<open>IndexError\<close> when the path has too few segments.
\<close>

definition parse_image_path :: "string \<Rightarrow> error + metadata" where
  "parse_image_path path =
     (let parts = split_on CHR ''/'' path in
      (case index_from_end parts 3 of Inl e \<Rightarrow> Inl e | Inr collection_folder \<Rightarrow>
      (case index_from_end parts 2 of Inl e \<Rightarrow> Inl e | Inr type_folder \<Rightarrow>
      (case index_from_end parts 1 of Inl e \<Rightarrow> Inl e | Inr fname \<Rightarrow>
      (case rsplit1 CHR ''.'' fname of [] \<Rightarrow> Inl IndexError | file_base # rest \<Rightarrow>
        Inr \<lparr>collection = collection_folder, type = type_folder,
             file = file_base, filename = fname\<rparr>)))))"

subsection \<open>Enumeration of the image files\<close>

definition IMAGE_EXTENSIONS :: "string list" where
  "IMAGE_EXTENSIONS = [''.png'', ''.jpg'', ''.jpeg'', ''.gif'', ''.bmp'', ''.svg'']"

text \<open>
  \<open>_get_image_files\<close>. The argument is what \<^verbatim>\<open>os.walk(self.base_folder)\<close>
  yields: one triple \<open>(root, dirs, files)\<close> per directory.
\<close>

definition get_image_files :: "(string \<times> string list \<times> string list) list \<Rightarrow> string list" where
  "get_image_files walk =
     sort (concat (map (\<lambda>(root, dirs, files).
        map (os_path_join root)
          (filter (\<lambda>f. endswith_any (lower f) IMAGE_EXTENSIONS) files)) walk))"

text \<open>
  The reading of "ends, case-insensitively, with the extension \<open>e\<close>": the name is
  some prefix followed by a dot and a spelling of \<open>e\<close> in any mix of cases.
\<close>

definition has_extension :: "string \<Rightarrow> string \<Rightarrow> bool" where
  "has_extension name e =
     (\<exists>pre suf. name = pre @ CHR ''.'' # suf \<and> lower suf = lower e)"

subsection \<open>The record store\<close>

type_synonym timestamp = nat

text \<open>
  A row of \<open>flaticon_images\<close>. The nullable columns are options; \<open>skipped\<close>
  is \<^verbatim>\<open>INTEGER DEFAULT 0\<close>, a nullable integer.
\<close>

record image_record = metadata +
  rec_id :: nat
  image_path :: string
  model :: "string option"
  "text" :: "string option"
  skipped :: "int option"
  created_when :: timestamp
  scanned_when :: timestamp
  updated_when :: "timestamp option"

text \<open>
  The database file. \<open>images_table\<close>, \<open>skipped_column\<close> and \<open>count_table\<close>
  say what of the schema exists; \<open>images\<close> are the rows of \<open>flaticon_images\<close>;
  \<open>sequence\<close> is the largest rowid \<^verbatim>\<open>AUTOINCREMENT\<close> has handed out;
  \<open>processing_count\<close> is the row with id 0 of that table, if there is one.
  Every method runs on an object whose constructor has run \<open>_init_database\<close>,
  so the methods below read and write the rows without looking at the flags.
\<close>

record database =
  images_table :: bool
  skipped_column :: bool
  images :: "image_record list"
  sequence :: nat
  count_table :: bool
  processing_count :: "(string option \<times> timestamp option) option"

text \<open>
  \<open>_init_database\<close>: \<^verbatim>\<open>CREATE TABLE IF NOT EXISTS\<close>, then
  \<^verbatim>\<open>ALTER TABLE ... ADD COLUMN skipped INTEGER DEFAULT 0\<close>, whose
  \<open>OperationalError\<close> on an existing column is swallowed and which otherwise gives
  every existing row the default, then the second table and
  \<^verbatim>\<open>INSERT OR IGNORE\<close> of the row with id 0.
\<close>

definition create_images_table :: "database \<Rightarrow> database" where
  "create_images_table d =
     (if images_table d then d
      else d\<lparr>images_table := True, skipped_column := True, images := [], sequence := 0\<rparr>)"

definition add_skipped_column :: "database \<Rightarrow> database" where
  "add_skipped_column d =
     (if skipped_column d then d
      else d\<lparr>skipped_column := True,
             images := map (\<lambda>r. r\<lparr>skipped := Some 0\<rparr>) (images d)\<rparr>)"

definition create_count_table :: "database \<Rightarrow> database" where
  "create_count_table d =
     (if count_table d then d else d\<lparr>count_table := True, processing_count := None\<rparr>)"

definition insert_or_ignore_count :: "database \<Rightarrow> database" where
  "insert_or_ignore_count d =
     (case processing_count d of
        None \<Rightarrow> d\<lparr>processing_count := Some (None, None)\<rparr>
      | Some row \<Rightarrow> d)"

definition init_database :: "database \<Rightarrow> database" where
  "init_database d =
     insert_or_ignore_count (create_count_table (add_skipped_column (create_images_table d)))"

text \<open>\<open>_load_last_processed\<close> and \<open>_save_last_processed\<close>.\<close>

definition load_last_processed :: "database \<Rightarrow> string option" where
  "load_last_processed d =
     (case processing_count d of
        Some (Some p, u) \<Rightarrow> (if p \<noteq> [] then Some p else None)
      | _ \<Rightarrow> None)"

definition save_last_processed :: "string \<Rightarrow> timestamp \<Rightarrow> database \<Rightarrow> database" where
  "save_last_processed path current_time d =
     d\<lparr>processing_count :=
         map_option (\<lambda>row. (Some path, Some current_time)) (processing_count d)\<rparr>"

subsection \<open>Scanner\<close>

text \<open>The rowid \<^verbatim>\<open>AUTOINCREMENT\<close> gives the next inserted row.\<close>

definition next_rowid :: "database \<Rightarrow> nat" where
  "next_rowid d = Suc (fold max (map rec_id (images d)) (sequence d))"

definition path_exists :: "string \<Rightarrow> database \<Rightarrow> bool" where
  "path_exists path d = list_ex (\<lambda>r. image_path r = path) (images d)"

definition touch_scanned :: "timestamp \<Rightarrow> string \<Rightarrow> database \<Rightarrow> database" where
  "touch_scanned current_time path d =
     d\<lparr>images := map (\<lambda>r. if image_path r = path then r\<lparr>scanned_when := current_time\<rparr> else r)
                      (images d)\<rparr>"

definition insert_image :: "timestamp \<Rightarrow> string \<Rightarrow> metadata \<Rightarrow> database \<Rightarrow> database" where
  "insert_image current_time path md d =
     d\<lparr>images := images d @
          [\<lparr>collection = collection md, type = type md, file = file md,
            filename = filename md, rec_id = next_rowid d, image_path = path,
            model = None, text = None, skipped = Some 0,
            created_when = current_time, scanned_when = current_time,
            updated_when = None\<rparr>],
        sequence := next_rowid d\<rparr>"

text \<open>
  The body of the inner loop of \<open>_scan_and_update_database\<close> for one path: the
  path is parsed first, so a path that does not parse raises before anything is
  written.
\<close>

definition scan_path :: "timestamp \<Rightarrow> string \<Rightarrow> database \<Rightarrow> error + database" where
  "scan_path current_time path d =
     (case parse_image_path path of
        Inl e \<Rightarrow> Inl e
      | Inr md \<Rightarrow>
          if path_exists path d then Inr (touch_scanned current_time path d)
          else Inr (insert_image current_time path md d))"

fun scan_batch :: "timestamp \<Rightarrow> string list \<Rightarrow> database \<Rightarrow> error + database" where
  "scan_batch current_time [] d = Inr d"
| "scan_batch current_time (p # ps) d =
     (case scan_path current_time p d of
        Inl e \<Rightarrow> Inl e
      | Inr d' \<Rightarrow> scan_batch current_time ps d')"

text \<open>
  The outer loop: batches of 100 paths, a commit after each. An exception leaves
  the loop; the connection's context manager rolls the open batch back, so the
  file keeps the state of the last commit. The result is that state and the
  exception, if any.
\<close>

function scan_batches :: "timestamp \<Rightarrow> string list \<Rightarrow> database \<Rightarrow> database \<times> error option" where
  "scan_batches current_time image_files d =
     (if image_files = [] then (d, None)
      else case scan_batch current_time (take 100 image_files) d of
             Inl e \<Rightarrow> (d, Some e)
           | Inr d' \<Rightarrow> scan_batches current_time (drop 100 image_files) d')"
  by pat_completeness auto
termination
  by (relation "measure (\<lambda>(t, fs, d). length fs)") auto

declare scan_batches.simps [simp del]

subsection \<open>The outside world\<close>

text \<open>
  What \<^verbatim>\<open>litellm.completion(...).choices[0].message.content\<close> evaluates to:
  an exception, or the content, which may be \<open>None\<close>.
\<close>

datatype completion_result = Raised | Content "string option"

text \<open>
  \<open>walk\<close> is what \<^verbatim>\<open>os.walk\<close> yields on the base folder, \<open>read_file\<close> the
  bytes of a file (\<open>None\<close> when \<^verbatim>\<open>open\<close> or \<^verbatim>\<open>read\<close> raises),
  \<open>b64encode\<close> the library function, \<open>completion\<close> the captioning service
  applied to model name, prompt and image payload, and \<open>now_at k\<close> what the
  \<open>k\<close>-th call of \<^verbatim>\<open>datetime.now()\<close> returns.
\<close>

record env =
  walk :: "(string \<times> string list \<times> string list) list"
  read_file :: "string \<Rightarrow> string option"
  b64encode :: "string \<Rightarrow> string"
  completion :: "string \<Rightarrow> string \<Rightarrow> string \<Rightarrow> completion_result"
  now_at :: "nat \<Rightarrow> timestamp"

definition DEFAULT_MODEL :: string where
  "DEFAULT_MODEL = ''ollama/qwen2.5vl''"

definition DEFAULT_BATCH_SIZE :: int where
  "DEFAULT_BATCH_SIZE = 10"

subsection \<open>Captioning one image\<close>

definition image_to_base64 :: "env \<Rightarrow> string \<Rightarrow> string option" where
  "image_to_base64 E path = map_option (b64encode E) (read_file E path)"

definition create_prompt :: "string \<Rightarrow> error + string" where
  "create_prompt path =
     (case parse_image_path path of
        Inl e \<Rightarrow> Inl e
      | Inr md \<Rightarrow>
          (let collection_parts = split1 CHR ''-'' (collection md);
               collection_num = hd collection_parts;
               collection_name =
                 (if 1 < length collection_parts then collection_parts ! 1 else [])
           in Inr (''\<newline>This is from Flaticon.com Collection #'' @ collection_num
                @ '' '' @ [CHR 0x22] @ collection_name @ [CHR 0x22] @ '', ''
                @ file md @ '' '' @ type md @ ''.\<newline>''
                @ ''Describe what's in this image in a very very concise way, ''
                @ ''pay attention to the designer's original intention for a ''
                @ file md @ '' logo,\<newline>''
                @ ''under the collection of '' @ [CHR 0x22] @ collection_name @ [CHR 0x22]
                @ ''), only mention if details like color scheme, lines, layout, style, ''
                @ ''etc warrant mentioning. \<newline>''
                @ ''Don't use full sentence, more like a description from an art gallery ''
                @ ''description for a painting.\<newline>'')))"

text \<open>What the Annotator prints.\<close>

datatype event =
    Found nat
  | Processing nat string
  | ErrorProcessingImage string error
  | ProcessedSoFar nat
  | SkippedRecord nat
  | ErrorProcessingRecord nat error
  | ProcessingComplete nat

text \<open>
  \<open>_process_image\<close>: every exception of the body is caught, reported and turned
  into \<open>None\<close>. The result is the returned text and what was printed.
\<close>

definition process_image :: "env \<Rightarrow> string \<Rightarrow> string option \<times> event list" where
  "process_image E path =
     (case image_to_base64 E path of
        None \<Rightarrow> (None, [ErrorProcessingImage path OSError])
      | Some base64_image \<Rightarrow>
          (case create_prompt path of
             Inl e \<Rightarrow> (None, [ErrorProcessingImage path e])
           | Inr prompt_text \<Rightarrow>
               (case completion E DEFAULT_MODEL prompt_text base64_image of
                  Raised \<Rightarrow> (None, [ErrorProcessingImage path ProviderError])
                | Content c \<Rightarrow> (c, []))))"

text \<open>The truth value of \<^verbatim>\<open>if vision_text:\<close>.\<close>

definition truthy :: "string option \<Rightarrow> bool" where
  "truthy v = (case v of None \<Rightarrow> False | Some t \<Rightarrow> t \<noteq> [])"

subsection \<open>Annotator\<close>

text \<open>
  The query of \<open>_process_unprocessed_records\<close>:
  \<^verbatim>\<open>SELECT id, image_path ... WHERE updated_when IS NULL AND skipped = 0 ORDER BY id\<close>.
  A null \<open>skipped\<close> does not satisfy \<^verbatim>\<open>skipped = 0\<close>.
\<close>

definition select_unprocessed :: "database \<Rightarrow> (nat \<times> string) list" where
  "select_unprocessed d =
     map (\<lambda>r. (rec_id r, image_path r))
       (sort_key rec_id
          (filter (\<lambda>r. updated_when r = None \<and> skipped r = Some 0) (images d)))"

text \<open>
  \<^verbatim>\<open>UPDATE flaticon_images SET model = ?, text = ?, updated_when = ? WHERE id = ?\<close>.
\<close>

definition update_annotation :: "string \<Rightarrow> string \<Rightarrow> timestamp \<Rightarrow> nat \<Rightarrow> database \<Rightarrow> database" where
  "update_annotation m vision_text current_time record_id d =
     d\<lparr>images :=
         map (\<lambda>r. if rec_id r = record_id
                  then r\<lparr>model := Some m, text := Some vision_text,
                         updated_when := Some current_time\<rparr>
                  else r) (images d)\<rparr>"

text \<open>
  The state of the loop: the database file, the number of clock readings made,
  the output so far and the local counter.
\<close>

record loop_state =
  db :: database
  clock :: nat
  "output" :: "event list"
  processed_count :: nat

definition say :: "event list \<Rightarrow> loop_state \<Rightarrow> loop_state" where
  "say es s = s\<lparr>output := output s @ es\<rparr>"

text \<open>
  The success branch, statement by statement: the update and its commit with the
  counter's increment; then \<open>_save_last_processed\<close>, which reads the clock
  again; then the progress report, where a batch size of zero raises
  \<open>ZeroDivisionError\<close> into the handler of the loop body.
\<close>

definition commit_annotation :: "env \<Rightarrow> nat \<Rightarrow> string \<Rightarrow> loop_state \<Rightarrow> loop_state" where
  "commit_annotation E record_id vision_text s =
     s\<lparr>db := update_annotation DEFAULT_MODEL vision_text (now_at E (clock s)) record_id (db s),
       clock := Suc (clock s),
       processed_count := processed_count s + 1\<rparr>"

definition save_cursor :: "env \<Rightarrow> string \<Rightarrow> loop_state \<Rightarrow> loop_state" where
  "save_cursor E path s =
     s\<lparr>db := save_last_processed path (now_at E (clock s)) (db s),
       clock := Suc (clock s)\<rparr>"

definition report_progress :: "int \<Rightarrow> nat \<Rightarrow> loop_state \<Rightarrow> loop_state" where
  "report_progress batch_size record_id s =
     (if batch_size = 0 then say [ErrorProcessingRecord record_id ZeroDivisionError] s
      else if int (processed_count s) mod batch_size = 0
           then say [ProcessedSoFar (processed_count s)] s
      else s)"

definition annotate_record :: "env \<Rightarrow> int \<Rightarrow> nat \<times> string \<Rightarrow> loop_state \<Rightarrow> loop_state" where
  "annotate_record E batch_size rp s =
     (case rp of (record_id, path) \<Rightarrow>
        (case process_image E path of (vision_text, printed) \<Rightarrow>
           (let s1 = say (Processing record_id path # printed) s in
            if truthy vision_text
            then report_progress batch_size record_id
                   (save_cursor E path
                      (commit_annotation E record_id (the vision_text) s1))
            else say [SkippedRecord record_id] s1)))"

definition process_unprocessed_records :: "env \<Rightarrow> int option \<Rightarrow> database \<Rightarrow> nat \<Rightarrow> loop_state" where
  "process_unprocessed_records E batch_size d k =
     (let bs = (case batch_size of None \<Rightarrow> DEFAULT_BATCH_SIZE | Some b \<Rightarrow> b);
          unprocessed = select_unprocessed d;
          s0 = \<lparr>db = d, clock = k, output = [Found (length unprocessed)],
                processed_count = 0\<rparr>;
          s = fold (annotate_record E bs) unprocessed s0
      in say [ProcessingComplete (processed_count s)] s)"

subsection \<open>Pipeline\<close>

text \<open>
  \<open>_scan_and_update_database\<close> reads the clock once, before the loop. Its result
  is the database file, the number of clock readings and the exception that ended
  it, if any.
\<close>

definition scan_and_update_database :: "env \<Rightarrow> database \<Rightarrow> nat \<Rightarrow> (database \<times> nat) \<times> error option" where
  "scan_and_update_database E d k =
     (let image_files = get_image_files (walk E);
          current_time = now_at E k
      in case scan_batches current_time image_files d of
           (d', err) \<Rightarrow> ((d', Suc k), err))"

text \<open>
  \<open>Generate\<close>: an exception of the scan leaves \<open>Generate\<close> (\<open>Inl\<close>, with the
  file as the scan left it); otherwise the Annotator runs on the scanned file.
\<close>

definition Generate :: "env \<Rightarrow> int option \<Rightarrow> database \<Rightarrow> nat \<Rightarrow> (error \<times> database) + loop_state" where
  "Generate E batch_size d k =
     (let bs = (case batch_size of None \<Rightarrow> DEFAULT_BATCH_SIZE | Some b \<Rightarrow> b) in
      case scan_and_update_database E d k of
        ((d', k'), Some e) \<Rightarrow> Inl (e, d')
      | ((d', k'), None) \<Rightarrow> Inr (process_unprocessed_records E (Some bs) d' k'))"

text \<open>The constructor: \<open>__init__\<close> runs \<open>_init_database\<close> on the file.\<close>

definition construct :: "database \<Rightarrow> database" where
  "construct d = init_database d"

subsection \<open>Notions used in the statements\<close>

text \<open>
  The spec's pending records: \<open>updated_when\<close> is null and \<open>skipped\<close> is false,
  that is, the integer 0.
\<close>

definition pending :: "image_record \<Rightarrow> bool" where
  "pending r = (updated_when r = None \<and> skipped r = Some 0)"

text \<open>The records a run took up, in the order of the output.\<close>

fun processing_events :: "event list \<Rightarrow> (nat \<times> string) list" where
  "processing_events [] = []"
| "processing_events (Processing i p # es) = (i, p) # processing_events es"
| "processing_events (e # es) = processing_events es"

text \<open>The two messages that the progress report of the loop can print.\<close>

fun is_report :: "event \<Rightarrow> bool" where
  "is_report (ProcessedSoFar n) = True"
| "is_report (ErrorProcessingRecord i e) = True"
| "is_report e = False"

text \<open>
  The failures of the spec: the file cannot be read, the prompt cannot be built,
  the service raises, or it returns no text or the empty text.
\<close>

definition processing_fails :: "env \<Rightarrow> string \<Rightarrow> bool" where
  "processing_fails E path =
     (case read_file E path of
        None \<Rightarrow> True
      | Some bytes \<Rightarrow>
          (case create_prompt path of
             Inl e \<Rightarrow> True
           | Inr prompt_text \<Rightarrow>
               (case completion E DEFAULT_MODEL prompt_text (b64encode E bytes) of
                  Raised \<Rightarrow> True
                | Content None \<Rightarrow> True
                | Content (Some t) \<Rightarrow> t = [])))"

text \<open>A row after a scan at time \<open>t\<close> that saw the paths \<open>S\<close>.\<close>

definition touched :: "timestamp \<Rightarrow> string set \<Rightarrow> image_record \<Rightarrow> image_record" where
  "touched t S r = (if image_path r \<in> S then r\<lparr>scanned_when := t\<rparr> else r)"

text \<open>
  What a scan at time \<open>t\<close> that saw the paths \<open>S\<close> does to the file: the old rows
  stay in place, touched; the rows of the paths that were new follow, as inserted;
  nothing else changes but the rowid sequence.
\<close>

definition scan_effect :: "timestamp \<Rightarrow> string set \<Rightarrow> database \<Rightarrow> database \<Rightarrow> bool" where
  "scan_effect t S d d' =
     (\<exists>new. images d' = map (touched t S) (images d) @ new \<and>
        (\<forall>r \<in> set new. created_when r = t \<and> scanned_when r = t \<and>
            updated_when r = None \<and> skipped r = Some 0 \<and>
            image_path r \<in> S \<and> \<not> path_exists (image_path r) d) \<and>
        (\<forall>p \<in> S. path_exists p d') \<and>
        d'\<lparr>images := [], sequence := 0\<rparr> = d\<lparr>images := [], sequence := 0\<rparr>)"

text \<open>
  The exception a batch raises, the paths of the batches a scan commits, and the
  exception that ends the scan: all three depend on the paths alone.
\<close>

fun batch_error :: "string list \<Rightarrow> error option" where
  "batch_error [] = None"
| "batch_error (p # ps) =
     (case parse_image_path p of Inl e \<Rightarrow> Some e | Inr md \<Rightarrow> batch_error ps)"

function committed_paths :: "string list \<Rightarrow> string list" where
  "committed_paths image_files =
     (if image_files = [] then []
      else case batch_error (take 100 image_files) of
             Some e \<Rightarrow> []
           | None \<Rightarrow> take 100 image_files @ committed_paths (drop 100 image_files))"
  by pat_completeness auto
termination
  by (relation "measure length") auto

declare committed_paths.simps [simp del]

function scan_error :: "string list \<Rightarrow> error option" where
  "scan_error image_files =
     (if image_files = [] then None
      else case batch_error (take 100 image_files) of
             Some e \<Rightarrow> Some e
           | None \<Rightarrow> scan_error (drop 100 image_files))"
  by pat_completeness auto
termination
  by (relation "measure length") auto

declare scan_error.simps [simp del]

subsection \<open>A small run\<close>

text \<open>
  A tree with two icons and a text file, a file system on which the first icon
  cannot be read, a service that always answers, and a clock that starts at 100;
  a database file without tables; and the file after the constructor and one scan
  of that tree.
\<close>

definition example_env :: env where
  "example_env =
     \<lparr>walk = [(''t/c/png'', [], [''a.png'', ''b.png'', ''notes.txt''])],
      read_file = (\<lambda>p. if p = ''t/c/png/a.png'' then None else Some ''bytes''),
      b64encode = (\<lambda>x. x),
      completion = (\<lambda>m prompt_text image. Content (Some ''a caption'')),
      now_at = (\<lambda>k. 100 + k)\<rparr>"

definition empty_file :: database where
  "empty_file =
     \<lparr>images_table = False, skipped_column = False, images = [], sequence = 0,
      count_table = False, processing_count = None\<rparr>"

definition example_scanned :: database where
  "example_scanned =
     \<lparr>images_table = True, skipped_column = True,
      images =
        [\<lparr>collection = ''c'', type = ''png'', file = ''a'', filename = ''a.png'',
          rec_id = 1, image_path = ''t/c/png/a.png'', model = None, text = None,
          skipped = Some 0, created_when = 100, scanned_when = 100,
          updated_when = None\<rparr>,
         \<lparr>collection = ''c'', type = ''png'', file = ''b'', filename = ''b.png'',
          rec_id = 2, image_path = ''t/c/png/b.png'', model = None, text = None,
          skipped = Some 0, created_when = 100, scanned_when = 100,
          updated_when = None\<rparr>],
      sequence = 2, count_table = True, processing_count = Some (None, None)\<rparr>"

section \<open>Properties\<close>

subsection \<open>Splitting and joining\<close>

lemma split_on_ne: "split_on c s \<noteq> []"
  by (induction s) (auto split: list.splits)

lemma join_split: "join_on c (split_on c s) = s"
proof (induction s)
  case Nil
  then show ?case by (simp add: join_on_def)
next
  case (Cons x xs)
  obtain h t where ht: "split_on c xs = h # t"
    using split_on_ne [of c xs] by (cases "split_on c xs") auto
  with Cons show ?case by (simp add: join_on_def)
qed

lemma split_no_sep: "s \<in> set (split_on c xs) \<Longrightarrow> c \<notin> set s"
proof (induction xs arbitrary: s)
  case Nil
  then show ?case by simp
next
  case (Cons x xs)
  obtain h t where ht: "split_on c xs = h # t"
    using split_on_ne [of c xs] by (cases "split_on c xs") auto
  with Cons show ?case by (auto split: if_splits)
qed

lemma split_on_no_sep: "c \<notin> set s \<Longrightarrow> split_on c s = [s]"
  by (induction s) auto

lemma split_on_append_sep: "c \<notin> set s \<Longrightarrow> split_on c (s @ c # rest) = s # split_on c rest"
  by (induction s) auto

lemma split_join_aux:
  "c \<notin> set s \<Longrightarrow> \<forall>t \<in> set ss. c \<notin> set t \<Longrightarrow>
   split_on c (s @ concat (map (\<lambda>t. c # t) ss)) = s # ss"
proof (induction ss arbitrary: s)
  case Nil
  then show ?case by (simp add: split_on_no_sep)
next
  case (Cons t ss)
  have "split_on c (s @ c # (t @ concat (map (\<lambda>t. c # t) ss))) =
        s # split_on c (t @ concat (map (\<lambda>t. c # t) ss))"
    using Cons.prems(1) by (rule split_on_append_sep)
  also have "split_on c (t @ concat (map (\<lambda>t. c # t) ss)) = t # ss"
    using Cons.prems(2) by (intro Cons.IH) auto
  finally show ?case by simp
qed

lemma split_join:
  "segs \<noteq> [] \<Longrightarrow> \<forall>s \<in> set segs. c \<notin> set s \<Longrightarrow> split_on c (join_on c segs) = segs"
  by (cases segs) (auto simp: join_on_def split_join_aux)

lemma rsplit1_hd_no_sep: "c \<notin> set s \<Longrightarrow> rsplit1 c s = [s]"
  by (simp add: rsplit1_def)

lemma rsplit1_sep:
  assumes "c \<in> set s"
  shows "\<exists>ext. c \<notin> set ext \<and> rsplit1 c s = [hd (rsplit1 c s), ext] \<and> s = hd (rsplit1 c s) @ c # ext"
proof -
  let ?P = "\<lambda>x. x \<noteq> c"
  let ?d = "dropWhile ?P (rev s)"
  let ?t = "takeWhile ?P (rev s)"
  have "c \<in> set (rev s)" using assms by simp
  then have dne: "?d \<noteq> []" by (simp add: dropWhile_eq_Nil_conv)
  then have "\<not> ?P (hd ?d)" by (rule hd_dropWhile)
  then have d: "?d = c # tl ?d" using dne by (cases ?d) auto
  have "s = rev (?t @ ?d)" by (simp only: takeWhile_dropWhile_id rev_rev_ident)
  also have "\<dots> = rev ?d @ rev ?t" by (rule rev_append)
  also have "rev ?d = rev (tl ?d) @ [c]" by (subst d) (simp only: rev.simps)
  finally have "s = rev (tl ?d) @ c # rev ?t" by (simp only: append_assoc append_Cons append_Nil)
  moreover have "c \<notin> set (rev ?t)" by (auto dest: set_takeWhileD)
  ultimately show ?thesis using assms by (auto simp: rsplit1_def)
qed

subsection \<open>PathParser\<close>

lemma parse_image_path_parts:
  assumes "split_on CHR ''/'' p = parts"
  shows "parse_image_path p =
     (if 3 \<le> length parts
      then Inr \<lparr>collection = parts ! (length parts - 3), type = parts ! (length parts - 2),
                file = hd (rsplit1 CHR ''.'' (parts ! (length parts - 1))),
                filename = parts ! (length parts - 1)\<rparr>
      else Inl IndexError)"
proof -
  have "rsplit1 CHR ''.'' s \<noteq> []" for s by (simp add: rsplit1_def)
  then have "(case rsplit1 CHR ''.'' s of [] \<Rightarrow> a | x # r \<Rightarrow> f x) = f (hd (rsplit1 CHR ''.'' s))"
    for s a and f :: "string \<Rightarrow> error + metadata"
    by (cases "rsplit1 CHR ''.'' s") auto
  then show ?thesis
    using assms by (auto simp: parse_image_path_def index_from_end_def Let_def)
qed

text \<open>
  C6. A path of at least three slash-separated segments parses to its last three
  segments as collection, type and filename; \<open>file\<close> is the filename up to its
  last dot, and the whole filename when it has no dot. A path of fewer than three
  segments raises \<open>IndexError\<close>.
\<close>

theorem parse_image_path_spec:
  assumes "\<forall>s \<in> set segs. CHR ''/'' \<notin> set s"
  shows "(3 \<le> length segs \<longrightarrow>
           (\<exists>m. parse_image_path (join_on CHR ''/'' segs) = Inr m \<and>
                [collection m, type m, filename m] = drop (length segs - 3) segs \<and>
                (CHR ''.'' \<notin> set (filename m) \<longrightarrow> file m = filename m) \<and>
                (CHR ''.'' \<in> set (filename m) \<longrightarrow>
                   (\<exists>ext. CHR ''.'' \<notin> set ext \<and> filename m = file m @ CHR ''.'' # ext)))) \<and>
         (segs \<noteq> [] \<and> length segs < 3 \<longrightarrow>
            parse_image_path (join_on CHR ''/'' segs) = Inl IndexError)"
proof (intro conjI impI)
  assume len: "3 \<le> length segs"
  then have ne: "segs \<noteq> []" by auto
  have sp: "split_on CHR ''/'' (join_on CHR ''/'' segs) = segs"
    using ne assms by (rule split_join)
  let ?n = "length segs"
  let ?f = "segs ! (?n - 1)"
  let ?m = "\<lparr>collection = segs ! (?n - 3), type = segs ! (?n - 2),
             file = hd (rsplit1 CHR ''.'' ?f), filename = ?f\<rparr>"
  have p: "parse_image_path (join_on CHR ''/'' segs) = Inr ?m"
    using len by (simp add: parse_image_path_parts [OF sp])
  have "drop (?n - 3) segs = [segs ! (?n - 3), segs ! (?n - 2), segs ! (?n - 1)]"
  proof (rule nth_equalityI)
    show "length (drop (?n - 3) segs) = length [segs ! (?n - 3), segs ! (?n - 2), segs ! (?n - 1)]"
      using len by simp
  next
    fix i assume "i < length (drop (?n - 3) segs)"
    then have "i < 3" using len by simp
    then consider "i = 0" | "i = 1" | "i = 2" by linarith
    then show "drop (?n - 3) segs ! i = [segs ! (?n - 3), segs ! (?n - 2), segs ! (?n - 1)] ! i"
    proof cases
      case 1 then show ?thesis using len by simp
    next
      case 2
      have "?n - 3 + 1 = ?n - 2" using len by simp
      then show ?thesis using 2 len by simp
    next
      case 3
      have "?n - 3 + 2 = ?n - 1" using len by simp
      then show ?thesis using 3 len by simp
    qed
  qed
  then have d: "[collection ?m, type ?m, filename ?m] = drop (?n - 3) segs" by simp
  have a: "CHR ''.'' \<notin> set (filename ?m) \<longrightarrow> file ?m = filename ?m"
    by (simp add: rsplit1_hd_no_sep)
  have b: "CHR ''.'' \<in> set (filename ?m) \<longrightarrow>
        (\<exists>ext. CHR ''.'' \<notin> set ext \<and> filename ?m = file ?m @ CHR ''.'' # ext)"
    using rsplit1_sep [of "CHR ''.''" ?f] by auto
  show "\<exists>m. parse_image_path (join_on CHR ''/'' segs) = Inr m \<and>
                [collection m, type m, filename m] = drop (length segs - 3) segs \<and>
                (CHR ''.'' \<notin> set (filename m) \<longrightarrow> file m = filename m) \<and>
                (CHR ''.'' \<in> set (filename m) \<longrightarrow>
                   (\<exists>ext. CHR ''.'' \<notin> set ext \<and> filename m = file m @ CHR ''.'' # ext))"
    using p d a b by blast
next
  assume h: "segs \<noteq> [] \<and> length segs < 3"
  then have sp: "split_on CHR ''/'' (join_on CHR ''/'' segs) = segs"
    using assms by (intro split_join) auto
  show "parse_image_path (join_on CHR ''/'' segs) = Inl IndexError"
    using h by (simp add: parse_image_path_parts [OF sp])
qed

theorem parse_image_path_spec_witness:
  "(\<exists>m. parse_image_path ''t/c/png/a.png'' = Inr m \<and>
        [collection m, type m, filename m] = [''c'', ''png'', ''a.png'']) \<and>
   parse_image_path ''png/a.png'' = Inl IndexError"
proof -
  have s1: "\<forall>s \<in> set [''t'', ''c'', ''png'', ''a.png'']. CHR ''/'' \<notin> set s"
    by simp
  have j1: "join_on CHR ''/'' [''t'', ''c'', ''png'', ''a.png''] = ''t/c/png/a.png''"
    by (simp add: join_on_def)
  have l1: "3 \<le> length [''t'', ''c'', ''png'', ''a.png'']"
    by simp
  have d1: "drop (length [''t'', ''c'', ''png'', ''a.png''] - 3) [''t'', ''c'', ''png'', ''a.png'']
              = [''c'', ''png'', ''a.png'']"
    by simp
  from parse_image_path_spec [OF s1, THEN conjunct1, THEN mp, OF l1]
  obtain m where m: "parse_image_path (join_on CHR ''/'' [''t'', ''c'', ''png'', ''a.png'']) = Inr m \<and>
      [collection m, type m, filename m] =
         drop (length [''t'', ''c'', ''png'', ''a.png''] - 3) [''t'', ''c'', ''png'', ''a.png''] \<and>
      (CHR ''.'' \<notin> set (filename m) \<longrightarrow> file m = filename m) \<and>
      (CHR ''.'' \<in> set (filename m) \<longrightarrow>
         (\<exists>ext. CHR ''.'' \<notin> set ext \<and> filename m = file m @ CHR ''.'' # ext))" ..
  have x: "parse_image_path ''t/c/png/a.png'' = Inr m"
    using m [THEN conjunct1] by (subst (asm) j1)
  have y: "[collection m, type m, filename m] = [''c'', ''png'', ''a.png'']"
    using m [THEN conjunct2, THEN conjunct1] by (subst (asm) d1)
  from x y have "parse_image_path ''t/c/png/a.png'' = Inr m \<and>
        [collection m, type m, filename m] = [''c'', ''png'', ''a.png'']"
    by (rule conjI)
  then have a: "\<exists>m. parse_image_path ''t/c/png/a.png'' = Inr m \<and>
        [collection m, type m, filename m] = [''c'', ''png'', ''a.png'']"
    by (rule exI [of _ m])
  have s2: "\<forall>s \<in> set [''png'', ''a.png'']. CHR ''/'' \<notin> set s"
    by simp
  have j2: "join_on CHR ''/'' [''png'', ''a.png''] = ''png/a.png''"
    by (simp add: join_on_def)
  have l2: "[''png'', ''a.png''] \<noteq> [] \<and> length [''png'', ''a.png''] < 3"
    by simp
  have b: "parse_image_path ''png/a.png'' = Inl IndexError"
    using parse_image_path_spec [OF s2, THEN conjunct2, THEN mp, OF l2] by (subst (asm) j2)
  from a b show ?thesis by (rule conjI)
qed


subsection \<open>Enumeration\<close>

lemma endswith_iff: "endswith s suf \<longleftrightarrow> (\<exists>pre. s = pre @ suf)"
proof
  assume "endswith s suf"
  then have "s = take (length s - length suf) s @ suf"
    by (metis append_take_drop_id endswith_def)
  then show "\<exists>pre. s = pre @ suf" ..
next
  assume "\<exists>pre. s = pre @ suf"
  then show "endswith s suf" by (auto simp: endswith_def)
qed

lemma lower_char_dot: "lower_char x = CHR ''.'' \<longleftrightarrow> x = CHR ''.''"
proof
  assume a: "lower_char x = CHR ''.''"
  show "x = CHR ''.''"
  proof (cases "CHR ''A'' \<le> x \<and> x \<le> CHR ''Z''")
    case True
    then have r: "65 \<le> (of_char x :: nat)" "(of_char x :: nat) \<le> 90"
      by (simp_all add: less_eq_char_def)
    from True a have "char_of (of_char x + (32::nat)) = CHR ''.''"
      by (simp add: lower_char_def)
    then have "(of_char (char_of (of_char x + (32::nat)) :: char) :: nat) = of_char CHR ''.''"
      by simp
    then have "(of_char x + 32) mod 256 = (46::nat)" by simp
    with r show ?thesis by simp
  next
    case False
    with a show ?thesis by (simp add: lower_char_def)
  qed
next
  assume "x = CHR ''.''"
  then show "lower_char x = CHR ''.''" by (simp add: lower_char_def less_eq_char_def)
qed

lemma endswith_lower_ext:
  assumes "lower e = e"
  shows "endswith (lower f) (CHR ''.'' # e) \<longleftrightarrow> has_extension f e"
proof
  assume "endswith (lower f) (CHR ''.'' # e)"
  then obtain pre where "map lower_char f = pre @ CHR ''.'' # e"
    by (auto simp: endswith_iff lower_def)
  then obtain p s where ps: "f = p @ s" "map lower_char s = CHR ''.'' # e"
    by (auto simp: map_eq_append_conv)
  then obtain x suf where xs: "s = x # suf" "lower_char x = CHR ''.''" "map lower_char suf = e"
    by (auto simp: map_eq_Cons_conv)
  then have "x = CHR ''.''" by (simp add: lower_char_dot)
  with ps xs assms show "has_extension f e"
    by (auto simp: has_extension_def lower_def)
next
  assume "has_extension f e"
  then obtain pre suf where "f = pre @ CHR ''.'' # suf" "lower suf = e"
    using assms by (auto simp: has_extension_def)
  then have "lower f = lower pre @ CHR ''.'' # e"
    using lower_char_dot [of "CHR ''.''"] by (simp add: lower_def)
  then show "endswith (lower f) (CHR ''.'' # e)"
    unfolding endswith_iff by blast
qed

lemma is_image_name:
  "endswith_any (lower f) IMAGE_EXTENSIONS \<longleftrightarrow>
   (\<exists>e \<in> set [''png'', ''jpg'', ''jpeg'', ''gif'', ''bmp'', ''svg'']. has_extension f e)"
proof -
  have l: "lower ''png'' = ''png''" "lower ''jpg'' = ''jpg''" "lower ''jpeg'' = ''jpeg''"
    "lower ''gif'' = ''gif''" "lower ''bmp'' = ''bmp''" "lower ''svg'' = ''svg''"
    by (simp_all add: lower_def lower_char_def less_eq_char_def)
  have "endswith_any (lower f) IMAGE_EXTENSIONS \<longleftrightarrow>
      endswith (lower f) (CHR ''.'' # ''png'') \<or> endswith (lower f) (CHR ''.'' # ''jpg'') \<or>
      endswith (lower f) (CHR ''.'' # ''jpeg'') \<or> endswith (lower f) (CHR ''.'' # ''gif'') \<or>
      endswith (lower f) (CHR ''.'' # ''bmp'') \<or> endswith (lower f) (CHR ''.'' # ''svg'')"
    by (simp add: endswith_any_def IMAGE_EXTENSIONS_def)
  also have "\<dots> \<longleftrightarrow> has_extension f ''png'' \<or> has_extension f ''jpg'' \<or>
      has_extension f ''jpeg'' \<or> has_extension f ''gif'' \<or>
      has_extension f ''bmp'' \<or> has_extension f ''svg''"
    by (simp only: endswith_lower_ext [OF l(1)] endswith_lower_ext [OF l(2)]
        endswith_lower_ext [OF l(3)] endswith_lower_ext [OF l(4)]
        endswith_lower_ext [OF l(5)] endswith_lower_ext [OF l(6)])
  also have "\<dots> \<longleftrightarrow>
     (\<exists>e \<in> set [''png'', ''jpg'', ''jpeg'', ''gif'', ''bmp'', ''svg'']. has_extension f e)"
    by simp
  finally show ?thesis .
qed

text \<open>
  C7. The enumeration returns exactly the paths \<open>os.path.join(root, f)\<close> of the
  files \<open>f\<close> of the tree whose name has one of the six extensions in any mix of
  cases, one entry per such file, and the returned list is sorted
  lexicographically.
\<close>

theorem get_image_files_spec:
  "set (get_image_files w) =
     {os_path_join root f | root dirs files f.
        (root, dirs, files) \<in> set w \<and> f \<in> set files \<and>
        (\<exists>e \<in> set [''png'', ''jpg'', ''jpeg'', ''gif'', ''bmp'', ''svg'']. has_extension f e)} \<and>
   sorted (get_image_files w) \<and>
   length (get_image_files w) =
     (\<Sum>(root, dirs, files) \<leftarrow> w.
        length (filter (\<lambda>f. \<exists>e \<in> set [''png'', ''jpg'', ''jpeg'', ''gif'', ''bmp'', ''svg''].
                                has_extension f e) files))"
proof (intro conjI)
  show "set (get_image_files w) =
     {os_path_join root f | root dirs files f.
        (root, dirs, files) \<in> set w \<and> f \<in> set files \<and>
        (\<exists>e \<in> set [''png'', ''jpg'', ''jpeg'', ''gif'', ''bmp'', ''svg'']. has_extension f e)}"
    unfolding get_image_files_def is_image_name by force
  show "sorted (get_image_files w)"
    by (simp add: get_image_files_def)
  show "length (get_image_files w) =
     (\<Sum>(root, dirs, files) \<leftarrow> w.
        length (filter (\<lambda>f. \<exists>e \<in> set [''png'', ''jpg'', ''jpeg'', ''gif'', ''bmp'', ''svg''].
                                has_extension f e) files))"
    unfolding get_image_files_def is_image_name
    by (simp add: length_concat comp_def case_prod_unfold)
qed

theorem get_image_files_spec_witness:
  "sorted (get_image_files [(''r'', [''d''], [''b.PNG'', ''a.txt'']), (''r/d'', [], [''z.svg''])]) \<and>
   get_image_files [(''r'', [''d''], [''b.PNG'', ''a.txt'']), (''r/d'', [], [''z.svg''])]
     = [''r/b.PNG'', ''r/d/z.svg'']"
proof -
  let ?w = "[(''r'', [''d''], [''b.PNG'', ''a.txt'']), (''r/d'', [], [''z.svg''])]"
  have a: "sorted (get_image_files ?w)"
    by (rule get_image_files_spec [of ?w, THEN conjunct2, THEN conjunct1])
  have c: "get_image_files ?w = [''r/b.PNG'', ''r/d/z.svg'']"
    by code_simp
  from a c show ?thesis by (rule conjI)
qed

subsection \<open>Initialisation\<close>

lemma init_database_flags:
  "images_table (init_database d) \<and> skipped_column (init_database d) \<and>
   count_table (init_database d) \<and> processing_count (init_database d) \<noteq> None"
  by (simp add: init_database_def insert_or_ignore_count_def create_count_table_def
      add_skipped_column_def create_images_table_def split: option.splits)

text \<open>
  C10. Constructing the pipeline on a file that already has both tables and the
  cursor row leaves the cursor row, the rowid sequence and every column of every
  existing row as they were: the only change a row can see is the new column
  \<open>skipped\<close>, when the table did not have it, and with the column present the
  rows are identical. Constructing twice is the same as constructing once.
\<close>

theorem init_database_preserves:
  assumes "images_table d" and "count_table d" and "processing_count d = Some c"
  shows "processing_count (construct d) = Some c \<and>
         sequence (construct d) = sequence d \<and>
         length (images (construct d)) = length (images d) \<and>
         (\<forall>i < length (images d).
            \<exists>v. images (construct d) ! i = (images d ! i)\<lparr>skipped := v\<rparr>) \<and>
         (skipped_column d \<longrightarrow> images (construct d) = images d) \<and>
         construct (construct d) = construct d"
proof -
  have i: "init_database d = add_skipped_column d"
    using assms
    by (simp add: init_database_def insert_or_ignore_count_def create_count_table_def
        add_skipped_column_def create_images_table_def)
  have j: "init_database (add_skipped_column d) = add_skipped_column d"
    using assms
    by (simp add: init_database_def insert_or_ignore_count_def create_count_table_def
        add_skipped_column_def create_images_table_def)
  have "\<exists>v. images (add_skipped_column d) ! i = (images d ! i)\<lparr>skipped := v\<rparr>"
    if "i < length (images d)" for i
  proof (cases "skipped_column d")
    case True
    then have "images (add_skipped_column d) ! i = (images d ! i)\<lparr>skipped := skipped (images d ! i)\<rparr>"
      by (simp add: add_skipped_column_def)
    then show ?thesis by blast
  next
    case False
    then have "images (add_skipped_column d) ! i = (images d ! i)\<lparr>skipped := Some 0\<rparr>"
      using that by (simp add: add_skipped_column_def)
    then show ?thesis by blast
  qed
  then show ?thesis
    using assms unfolding construct_def i j
    by (simp add: add_skipped_column_def)
qed

theorem init_database_preserves_witness:
  "processing_count (construct
      \<lparr>images_table = True, skipped_column = False,
       images = [\<lparr>collection = ''c'', type = ''png'', file = ''a'', filename = ''a.png'',
                  rec_id = 1, image_path = ''t/c/png/a.png'', model = Some ''m'',
                  text = Some ''an icon'', skipped = None, created_when = 1,
                  scanned_when = 2, updated_when = Some 3\<rparr>],
       sequence = 1, count_table = True,
       processing_count = Some (Some ''t/c/png/a.png'', Some 4)\<rparr>)
     = Some (Some ''t/c/png/a.png'', Some 4) \<and>
   images (construct
      \<lparr>images_table = True, skipped_column = False,
       images = [\<lparr>collection = ''c'', type = ''png'', file = ''a'', filename = ''a.png'',
                  rec_id = 1, image_path = ''t/c/png/a.png'', model = Some ''m'',
                  text = Some ''an icon'', skipped = None, created_when = 1,
                  scanned_when = 2, updated_when = Some 3\<rparr>],
       sequence = 1, count_table = True,
       processing_count = Some (Some ''t/c/png/a.png'', Some 4)\<rparr>)
     = [\<lparr>collection = ''c'', type = ''png'', file = ''a'', filename = ''a.png'',
         rec_id = 1, image_path = ''t/c/png/a.png'', model = Some ''m'',
         text = Some ''an icon'', skipped = Some 0, created_when = 1,
         scanned_when = 2, updated_when = Some 3\<rparr>]"
proof -
  let ?d = "\<lparr>images_table = True, skipped_column = False,
       images = [\<lparr>collection = ''c'', type = ''png'', file = ''a'', filename = ''a.png'',
                  rec_id = 1, image_path = ''t/c/png/a.png'', model = Some ''m'',
                  text = Some ''an icon'', skipped = None, created_when = 1,
                  scanned_when = 2, updated_when = Some 3\<rparr>],
       sequence = 1, count_table = True,
       processing_count = Some (Some ''t/c/png/a.png'', Some 4)\<rparr>"
  have h: "images_table ?d" "count_table ?d"
     "processing_count ?d = Some (Some ''t/c/png/a.png'', Some 4)"
    by simp_all
  have a: "processing_count (construct ?d) = Some (Some ''t/c/png/a.png'', Some 4)"
    by (rule init_database_preserves [OF h, THEN conjunct1])
  have b: "images (construct ?d) =
     [\<lparr>collection = ''c'', type = ''png'', file = ''a'', filename = ''a.png'',
         rec_id = 1, image_path = ''t/c/png/a.png'', model = Some ''m'',
         text = Some ''an icon'', skipped = Some 0, created_when = 1,
         scanned_when = 2, updated_when = Some 3\<rparr>]"
    by (simp add: construct_def init_database_def insert_or_ignore_count_def
        create_count_table_def add_skipped_column_def create_images_table_def)
  from a b show ?thesis by (rule conjI)
qed

subsection \<open>Scanner\<close>

lemma touched_empty: "touched t {} r = r"
  by (simp add: touched_def)

lemma image_path_touched: "image_path (touched t S r) = image_path r"
  by (simp add: touched_def)

lemma touched_touched: "touched t S2 (touched t S1 r) = touched t (S1 \<union> S2) r"
  by (simp add: touched_def)

lemma touched_fresh: "scanned_when r = t \<Longrightarrow> touched t S r = r"
  by (simp add: touched_def)

lemma touched_absent: "image_path r \<notin> S \<Longrightarrow> touched t S r = r"
  by (simp add: touched_def)

lemma path_exists_iff: "path_exists p d \<longleftrightarrow> p \<in> set (map image_path (images d))"
  by (auto simp: path_exists_def list_ex_iff)

lemma map_image_path_touched: "map image_path (map (touched t S) xs) = map image_path xs"
  by (simp add: image_path_touched)

lemma scan_effect_refl: "scan_effect t {} d d"
  unfolding scan_effect_def
  by (intro exI [of _ "[]"]) (simp add: touched_empty cong: map_cong)

lemma scan_effect_paths:
  assumes "scan_effect t S d d'" and "path_exists p d"
  shows "path_exists p d'"
proof -
  from assms(1) obtain new where "images d' = map (touched t S) (images d) @ new"
    unfolding scan_effect_def by blast
  then have "map image_path (images d') = map image_path (images d) @ map image_path new"
    by (simp add: image_path_touched)
  with assms(2) show ?thesis by (simp add: path_exists_iff)
qed

lemma scan_effect_trans:
  assumes a: "scan_effect t S1 d d1" and b: "scan_effect t S2 d1 d2"
  shows "scan_effect t (S1 \<union> S2) d d2"
proof -
  from a obtain new1 where
    i1: "images d1 = map (touched t S1) (images d) @ new1" and
    n1: "\<forall>r \<in> set new1. created_when r = t \<and> scanned_when r = t \<and>
            updated_when r = None \<and> skipped r = Some 0 \<and>
            image_path r \<in> S1 \<and> \<not> path_exists (image_path r) d" and
    p1: "\<forall>p \<in> S1. path_exists p d1" and
    o1: "d1\<lparr>images := [], sequence := 0\<rparr> = d\<lparr>images := [], sequence := 0\<rparr>"
    unfolding scan_effect_def by blast
  from b obtain new2 where
    i2: "images d2 = map (touched t S2) (images d1) @ new2" and
    n2: "\<forall>r \<in> set new2. created_when r = t \<and> scanned_when r = t \<and>
            updated_when r = None \<and> skipped r = Some 0 \<and>
            image_path r \<in> S2 \<and> \<not> path_exists (image_path r) d1" and
    p2: "\<forall>p \<in> S2. path_exists p d2" and
    o2: "d2\<lparr>images := [], sequence := 0\<rparr> = d1\<lparr>images := [], sequence := 0\<rparr>"
    unfolding scan_effect_def by blast
  have "map (touched t S2) new1 = new1"
    using n1 by (intro map_idI touched_fresh) blast
  then have i: "images d2 = map (touched t (S1 \<union> S2)) (images d) @ (new1 @ new2)"
    using i1 i2 by (simp add: touched_touched comp_def)
  have n: "\<forall>r \<in> set (new1 @ new2). created_when r = t \<and> scanned_when r = t \<and>
            updated_when r = None \<and> skipped r = Some 0 \<and>
            image_path r \<in> S1 \<union> S2 \<and> \<not> path_exists (image_path r) d"
    using n1 n2 scan_effect_paths [OF a] by auto
  have p: "\<forall>p \<in> S1 \<union> S2. path_exists p d2"
    using p1 p2 scan_effect_paths [OF b] by auto
  have o: "d2\<lparr>images := [], sequence := 0\<rparr> = d\<lparr>images := [], sequence := 0\<rparr>"
    using o1 o2 by simp
  show ?thesis
    unfolding scan_effect_def using i n p o by blast
qed

lemma scan_path_effect:
  assumes "scan_path t p d = Inr d'"
  shows "scan_effect t {p} d d'"
proof (cases "path_exists p d")
  case True
  with assms have d': "d' = touch_scanned t p d"
    by (auto simp: scan_path_def split: sum.splits)
  have i: "images d' = map (touched t {p}) (images d) @ []"
    by (simp add: d' touch_scanned_def touched_def)
  have "map image_path (images d') = map image_path (images d)"
    unfolding i by (simp add: image_path_touched)
  with True have "path_exists p d'"
    by (simp add: path_exists_iff)
  note i
  moreover note \<open>path_exists p d'\<close>
  moreover have "d'\<lparr>images := [], sequence := 0\<rparr> = d\<lparr>images := [], sequence := 0\<rparr>"
    by (simp add: d' touch_scanned_def)
  ultimately show ?thesis
    unfolding scan_effect_def by (intro exI [of _ "[]"]) simp
next
  case False
  with assms obtain md where d': "d' = insert_image t p md d"
    by (auto simp: scan_path_def split: sum.splits)
  let ?row = "\<lparr>collection = collection md, type = type md, file = file md,
            filename = filename md, rec_id = next_rowid d, image_path = p,
            model = None, text = None, skipped = Some 0,
            created_when = t, scanned_when = t, updated_when = None\<rparr>"
  have "map (touched t {p}) (images d) = images d"
    using False by (intro map_idI touched_absent) (auto simp: path_exists_iff)
  then have "images d' = map (touched t {p}) (images d) @ [?row]"
    by (simp add: d' insert_image_def)
  moreover have "path_exists p d'"
    by (simp add: d' path_exists_iff insert_image_def)
  moreover have "d'\<lparr>images := [], sequence := 0\<rparr> = d\<lparr>images := [], sequence := 0\<rparr>"
    by (simp add: d' insert_image_def)
  ultimately show ?thesis
    unfolding scan_effect_def using False by (intro exI [of _ "[?row]"]) simp
qed

lemma scan_batch_effect:
  "scan_batch t ps d = Inr d' \<Longrightarrow> scan_effect t (set ps) d d'"
proof (induction ps arbitrary: d)
  case Nil
  then show ?case using scan_effect_refl by simp
next
  case (Cons p ps)
  then obtain d1 where s: "scan_path t p d = Inr d1" and r: "scan_batch t ps d1 = Inr d'"
    by (auto split: sum.splits)
  have "scan_effect t ({p} \<union> set ps) d d'"
    using scan_path_effect [OF s] Cons.IH [OF r] by (rule scan_effect_trans)
  then show ?case by simp
qed

lemma scan_path_error: "scan_path t p d = Inl e \<longleftrightarrow> parse_image_path p = Inl e"
  by (auto simp: scan_path_def split: sum.splits)

lemma scan_batch_error: "scan_batch t ps d = Inl e \<longleftrightarrow> batch_error ps = Some e"
proof (induction ps arbitrary: d)
  case Nil
  then show ?case by simp
next
  case (Cons p ps)
  show ?case
  proof (cases "parse_image_path p")
    case (Inl e')
    then have "scan_path t p d = Inl e'" by (simp add: scan_path_error)
    with Inl show ?thesis by simp
  next
    case (Inr md)
    then obtain d1 where "scan_path t p d = Inr d1"
      by (cases "path_exists p d") (auto simp: scan_path_def)
    with Inr Cons.IH [of d1] show ?thesis by simp
  qed
qed

lemma scan_batch_cases:
  obtains (fails) e where "scan_batch t ps d = Inl e" "batch_error ps = Some e"
  | (commits) d' where "scan_batch t ps d = Inr d'" "batch_error ps = None"
proof (cases "scan_batch t ps d")
  case (Inl e)
  then show ?thesis using fails scan_batch_error by blast
next
  case (Inr d')
  have "batch_error ps = None"
  proof (cases "batch_error ps")
    case (Some e)
    then have "scan_batch t ps d = Inl e" by (simp add: scan_batch_error)
    with Inr show ?thesis by simp
  qed simp
  with Inr show ?thesis using commits by blast
qed

lemma scan_batches_effect:
  "scan_batches t fs d = (d', e) \<Longrightarrow>
   e = scan_error fs \<and> scan_effect t (set (committed_paths fs)) d d'"
proof (induction t fs d rule: scan_batches.induct)
  case (1 t fs d)
  show ?case
  proof (cases "fs = []")
    case True
    with "1.prems" show ?thesis
      by (simp add: scan_batches.simps scan_error.simps committed_paths.simps scan_effect_refl)
  next
    case False
    show ?thesis
    proof (cases rule: scan_batch_cases [of t "take 100 fs" d])
      case (fails e')
      from fails(1) False have "scan_batches t fs d = (d, Some e')"
        by (simp add: scan_batches.simps [of t fs])
      with "1.prems" have de: "d' = d" "e = Some e'" by simp_all
      from fails(2) False have "scan_error fs = Some e'" "committed_paths fs = []"
        by (simp_all add: scan_error.simps [of fs] committed_paths.simps [of fs])
      then show ?thesis
        unfolding de using scan_effect_refl [of t d] by simp
    next
      case (commits d1)
      from commits False "1.prems" have r: "scan_batches t (drop 100 fs) d1 = (d', e)"
        by (simp add: scan_batches.simps [of t fs])
      from "1.IH" [OF False commits(1) r]
      have ih: "e = scan_error (drop 100 fs)"
        "scan_effect t (set (committed_paths (drop 100 fs))) d1 d'"
        by simp_all
      have "scan_effect t (set (take 100 fs) \<union> set (committed_paths (drop 100 fs))) d d'"
        using scan_batch_effect [OF commits(1)] ih(2) by (rule scan_effect_trans)
      moreover from commits(2) False have "scan_error fs = scan_error (drop 100 fs)"
        "committed_paths fs = take 100 fs @ committed_paths (drop 100 fs)"
        by (simp_all add: scan_error.simps [of fs] committed_paths.simps [of fs])
      ultimately show ?thesis
        using ih(1) by simp
    qed
  qed
qed

lemma committed_paths_subset: "set (committed_paths fs) \<subseteq> set fs"
proof (induction fs rule: committed_paths.induct)
  case (1 fs)
  show ?case
  proof (cases "fs = [] \<or> batch_error (take 100 fs) \<noteq> None")
    case True
    then show ?thesis by (auto simp: committed_paths.simps [of fs])
  next
    case False
    then have "set (committed_paths (drop 100 fs)) \<subseteq> set (drop 100 fs)"
      using "1.IH" by auto
    moreover have "set (take 100 fs) \<subseteq> set fs" "set (drop 100 fs) \<subseteq> set fs"
      by (auto dest: in_set_takeD in_set_dropD)
    ultimately show ?thesis
      using False by (auto simp: committed_paths.simps [of fs])
  qed
qed

lemma committed_paths_all: "scan_error fs = None \<Longrightarrow> committed_paths fs = fs"
proof (induction fs rule: committed_paths.induct)
  case (1 fs)
  show ?case
  proof (cases "fs = []")
    case True
    then show ?thesis by (simp add: committed_paths.simps)
  next
    case False
    with "1.prems" have b: "batch_error (take 100 fs) = None"
      and r: "scan_error (drop 100 fs) = None"
      by (auto simp: scan_error.simps [of fs] split: option.splits)
    from "1.IH" [OF False b r] have "committed_paths (drop 100 fs) = drop 100 fs" .
    with False b show ?thesis
      by (simp add: committed_paths.simps [of fs])
  qed
qed

lemma touch_scanned_touched:
  "touch_scanned t p d = d\<lparr>images := map (touched t {p}) (images d)\<rparr>"
  by (simp add: touch_scanned_def touched_def)

lemma path_exists_touched:
  "path_exists q (d\<lparr>images := map (touched t S) (images d)\<rparr>) = path_exists q d"
  by (simp add: path_exists_iff image_path_touched)

lemma touch_only_batch:
  assumes "\<forall>p \<in> set ps. path_exists p d" and "batch_error ps = None"
  shows "scan_batch t ps d = Inr (d\<lparr>images := map (touched t (set ps)) (images d)\<rparr>)"
  using assms
proof (induction ps arbitrary: d)
  case Nil
  then show ?case by (simp add: touched_empty)
next
  case (Cons p ps)
  from Cons.prems(2) obtain md where md: "parse_image_path p = Inr md"
    and b: "batch_error ps = None"
    by (auto split: sum.splits)
  let ?d1 = "d\<lparr>images := map (touched t {p}) (images d)\<rparr>"
  have s: "scan_path t p d = Inr ?d1"
    using Cons.prems(1) md by (simp add: scan_path_def touch_scanned_touched)
  have "\<forall>q \<in> set ps. path_exists q ?d1"
    using Cons.prems(1) by (simp add: path_exists_touched)
  from Cons.IH [OF this b]
  have "scan_batch t ps ?d1 = Inr (?d1\<lparr>images := map (touched t (set ps)) (images ?d1)\<rparr>)" .
  also have "?d1\<lparr>images := map (touched t (set ps)) (images ?d1)\<rparr>
      = d\<lparr>images := map (touched t (set (p # ps))) (images d)\<rparr>"
    by (simp add: touched_touched comp_def)
  finally show ?case using s by simp
qed

lemma touch_only:
  assumes "\<forall>p \<in> set (committed_paths fs). path_exists p d"
  shows "scan_batches t fs d =
           (d\<lparr>images := map (touched t (set (committed_paths fs))) (images d)\<rparr>, scan_error fs)"
  using assms
proof (induction t fs d rule: scan_batches.induct)
  case (1 t fs d)
  show ?case
  proof (cases "fs = []")
    case True
    then show ?thesis
      by (simp add: scan_batches.simps scan_error.simps committed_paths.simps touched_empty)
  next
    case False
    show ?thesis
    proof (cases "batch_error (take 100 fs)")
      case (Some e')
      then have "scan_batch t (take 100 fs) d = Inl e'"
        by (simp add: scan_batch_error)
      with Some False show ?thesis
        by (simp add: scan_batches.simps [of t fs] scan_error.simps [of fs]
            committed_paths.simps [of fs] touched_empty)
    next
      case None
      with False have c: "committed_paths fs = take 100 fs @ committed_paths (drop 100 fs)"
        and se: "scan_error fs = scan_error (drop 100 fs)"
        by (simp_all add: scan_error.simps [of fs] committed_paths.simps [of fs])
      let ?d1 = "d\<lparr>images := map (touched t (set (take 100 fs))) (images d)\<rparr>"
      have "\<forall>p \<in> set (take 100 fs). path_exists p d"
        using "1.prems" c by simp
      then have b: "scan_batch t (take 100 fs) d = Inr ?d1"
        using None by (rule touch_only_batch)
      have "\<forall>p \<in> set (committed_paths (drop 100 fs)). path_exists p ?d1"
        using "1.prems" c by (simp add: path_exists_touched)
      from "1.IH" [OF False b this]
      have "scan_batches t (drop 100 fs) ?d1 =
          (?d1\<lparr>images := map (touched t (set (committed_paths (drop 100 fs)))) (images ?d1)\<rparr>,
           scan_error (drop 100 fs))" .
      also have "?d1\<lparr>images := map (touched t (set (committed_paths (drop 100 fs)))) (images ?d1)\<rparr>
          = d\<lparr>images := map (touched t (set (committed_paths fs))) (images d)\<rparr>"
        unfolding c by (simp add: touched_touched comp_def)
      finally show ?thesis
        using b False se by (simp add: scan_batches.simps [of t fs])
    qed
  qed
qed

text \<open>
  C5. A scan pass leaves every row that was in the store in its place and changes
  at most its \<open>scanned_when\<close>, and only for the paths it saw. A second pass over
  the same tree changes nothing in the file but the \<open>scanned_when\<close> of the rows
  of those paths: the rows, their ids and all their other columns, the rowid
  sequence and the cursor are the same, and no row is added. When the first pass
  ran to its end, the paths seen are all the image files of the tree.
\<close>

theorem scan_twice_only_touches:
  assumes "scan_and_update_database E d k = ((d1, k1), e1)"
      and "scan_and_update_database E d1 k' = ((d2, k2), e2)"
  shows "\<exists>S. S \<subseteq> set (get_image_files (walk E)) \<and>
              (e1 = None \<longrightarrow> S = set (get_image_files (walk E))) \<and>
              take (length (images d)) (images d1) = map (touched (now_at E k) S) (images d) \<and>
              d2 = d1\<lparr>images := map (touched (now_at E k') S) (images d1)\<rparr> \<and>
              e2 = e1"
proof -
  let ?fs = "get_image_files (walk E)"
  let ?S = "set (committed_paths ?fs)"
  from assms(1) have r1: "scan_batches (now_at E k) ?fs d = (d1, e1)"
    by (simp add: scan_and_update_database_def Let_def split: prod.splits)
  from assms(2) have r2: "scan_batches (now_at E k') ?fs d1 = (d2, e2)"
    by (simp add: scan_and_update_database_def Let_def split: prod.splits)
  from scan_batches_effect [OF r1]
  have e1: "e1 = scan_error ?fs" and eff: "scan_effect (now_at E k) ?S d d1"
    by simp_all
  from eff obtain new where
    i: "images d1 = map (touched (now_at E k) ?S) (images d) @ new" and
    ex: "\<forall>p \<in> ?S. path_exists p d1"
    unfolding scan_effect_def by blast
  from touch_only [OF ex, of "now_at E k'"] r2
  have d2: "d2 = d1\<lparr>images := map (touched (now_at E k') ?S) (images d1)\<rparr>"
    and e2: "e2 = scan_error ?fs"
    by simp_all
  have t: "take (length (images d)) (images d1) = map (touched (now_at E k) ?S) (images d)"
    unfolding i by simp
  have a: "e1 = None \<longrightarrow> ?S = set ?fs"
    using e1 by (simp add: committed_paths_all)
  have "e2 = e1" using e1 e2 by simp
  with committed_paths_subset [of ?fs] a t d2
  have "?S \<subseteq> set ?fs \<and> (e1 = None \<longrightarrow> ?S = set ?fs) \<and>
        take (length (images d)) (images d1) = map (touched (now_at E k) ?S) (images d) \<and>
        d2 = d1\<lparr>images := map (touched (now_at E k') ?S) (images d1)\<rparr> \<and> e2 = e1"
    by (intro conjI)
  then show ?thesis by (rule exI [of _ ?S])
qed

text \<open>
  C9. A scan pass reads the clock once. Every row it refreshes and every row it
  inserts carries that one reading as \<open>scanned_when\<close>, and an inserted row
  carries it as \<open>created_when\<close> as well.
\<close>

theorem scan_single_timestamp:
  assumes "scan_and_update_database E d k = ((d', k'), e)"
  shows "k' = Suc k \<and>
         (\<exists>S new. S \<subseteq> set (get_image_files (walk E)) \<and>
              (e = None \<longrightarrow> S = set (get_image_files (walk E))) \<and>
              images d' = map (touched (now_at E k) S) (images d) @ new \<and>
              (\<forall>r \<in> set new. created_when r = now_at E k \<and> scanned_when r = now_at E k \<and>
                               image_path r \<in> S) \<and>
              (\<forall>p \<in> S. path_exists p d') \<and>
              (\<forall>r \<in> set (images d'). image_path r \<in> S \<longrightarrow> scanned_when r = now_at E k))"
proof -
  let ?fs = "get_image_files (walk E)"
  let ?S = "set (committed_paths ?fs)"
  let ?t = "now_at E k"
  from assms have r: "scan_batches ?t ?fs d = (d', e)" and k: "k' = Suc k"
    by (simp_all add: scan_and_update_database_def Let_def split: prod.splits)
  from scan_batches_effect [OF r]
  have e: "e = scan_error ?fs" and eff: "scan_effect ?t ?S d d'"
    by simp_all
  from eff obtain new where
    i: "images d' = map (touched ?t ?S) (images d) @ new" and
    n: "\<forall>r \<in> set new. created_when r = ?t \<and> scanned_when r = ?t \<and> image_path r \<in> ?S" and
    ex: "\<forall>p \<in> ?S. path_exists p d'"
    unfolding scan_effect_def by blast
  have s: "\<forall>r \<in> set (images d'). image_path r \<in> ?S \<longrightarrow> scanned_when r = ?t"
    unfolding i using n by (auto simp: touched_def)
  have a: "e = None \<longrightarrow> ?S = set ?fs"
    using e by (simp add: committed_paths_all)
  from committed_paths_subset [of ?fs] a i n ex s
  have "?S \<subseteq> set ?fs \<and> (e = None \<longrightarrow> ?S = set ?fs) \<and>
        images d' = map (touched ?t ?S) (images d) @ new \<and>
        (\<forall>r \<in> set new. created_when r = ?t \<and> scanned_when r = ?t \<and> image_path r \<in> ?S) \<and>
        (\<forall>p \<in> ?S. path_exists p d') \<and>
        (\<forall>r \<in> set (images d'). image_path r \<in> ?S \<longrightarrow> scanned_when r = ?t)"
    by (intro conjI)
  then have "\<exists>S new. S \<subseteq> set ?fs \<and> (e = None \<longrightarrow> S = set ?fs) \<and>
        images d' = map (touched ?t S) (images d) @ new \<and>
        (\<forall>r \<in> set new. created_when r = ?t \<and> scanned_when r = ?t \<and> image_path r \<in> S) \<and>
        (\<forall>p \<in> S. path_exists p d') \<and>
        (\<forall>r \<in> set (images d'). image_path r \<in> S \<longrightarrow> scanned_when r = ?t)"
    by (intro exI [of _ ?S] exI [of _ new])
  with k show ?thesis by (rule conjI)
qed

lemma example_scan:
  "scan_and_update_database example_env (construct empty_file) 0 = ((example_scanned, 1), None)"
  by code_simp

theorem scan_twice_only_touches_witness:
  "\<exists>S. S \<subseteq> set (get_image_files (walk example_env)) \<and>
        (None = (None :: error option) \<longrightarrow> S = set (get_image_files (walk example_env))) \<and>
        take (length (images (construct empty_file))) (images example_scanned) =
          map (touched (now_at example_env 0) S) (images (construct empty_file)) \<and>
        fst (fst (scan_and_update_database example_env example_scanned 5)) =
          example_scanned\<lparr>images := map (touched (now_at example_env 5) S) (images example_scanned)\<rparr> \<and>
        snd (scan_and_update_database example_env example_scanned 5) = None"
proof -
  have "scan_and_update_database example_env example_scanned 5 =
      ((fst (fst (scan_and_update_database example_env example_scanned 5)),
        snd (fst (scan_and_update_database example_env example_scanned 5))),
       snd (scan_and_update_database example_env example_scanned 5))"
    by simp
  from scan_twice_only_touches [OF example_scan this] show ?thesis .
qed

theorem scan_single_timestamp_witness:
  "(1::nat) = Suc 0 \<and>
   (\<exists>S new. S \<subseteq> set (get_image_files (walk example_env)) \<and>
        (None = (None :: error option) \<longrightarrow> S = set (get_image_files (walk example_env))) \<and>
        images example_scanned =
          map (touched (now_at example_env 0) S) (images (construct empty_file)) @ new \<and>
        (\<forall>r \<in> set new. created_when r = now_at example_env 0 \<and>
                         scanned_when r = now_at example_env 0 \<and> image_path r \<in> S) \<and>
        (\<forall>p \<in> S. path_exists p example_scanned) \<and>
        (\<forall>r \<in> set (images example_scanned).
            image_path r \<in> S \<longrightarrow> scanned_when r = now_at example_env 0))"
  using scan_single_timestamp [OF example_scan] .

subsection \<open>Annotator\<close>

lemma say_simps [simp]:
  "db (say es s) = db s" "clock (say es s) = clock s"
  "processed_count (say es s) = processed_count s" "output (say es s) = output s @ es"
  by (simp_all add: say_def)

lemma report_progress_simps [simp]:
  "db (report_progress bs i s) = db s" "clock (report_progress bs i s) = clock s"
  "processed_count (report_progress bs i s) = processed_count s"
  by (simp_all add: report_progress_def)

lemma report_progress_output:
  "\<exists>es. output (report_progress bs i s) = output s @ es \<and> (\<forall>e \<in> set es. is_report e)"
  by (simp add: report_progress_def)

lemma processing_fails_iff: "processing_fails E p \<longleftrightarrow> \<not> truthy (fst (process_image E p))"
  by (simp add: processing_fails_def process_image_def image_to_base64_def truthy_def
      split: option.splits sum.splits completion_result.splits)

lemma processing_events_append:
  "processing_events (xs @ ys) = processing_events xs @ processing_events ys"
  by (induction xs rule: processing_events.induct) simp_all

lemma processing_events_reports:
  "\<forall>e \<in> set es. is_report e \<Longrightarrow> processing_events es = []"
  by (induction es rule: processing_events.induct) simp_all

lemma process_image_printed:
  "processing_events (snd (process_image E p)) = [] \<and>
   (\<forall>e \<in> set (snd (process_image E p)). \<not> is_report e)"
  by (simp add: process_image_def split: option.splits sum.splits completion_result.splits)

text \<open>What one turn of the loop does to the file, the clock and the counter.\<close>

lemma annotate_record_fails:
  assumes "processing_fails E p"
  shows "annotate_record E bs (i, p) s =
           say (Processing i p # snd (process_image E p) @ [SkippedRecord i]) s"
  using assms
  by (cases "process_image E p")
     (simp add: processing_fails_iff annotate_record_def say_def Let_def)

lemma annotate_record_succeeds:
  assumes "\<not> processing_fails E p"
  shows "annotate_record E bs (i, p) s =
           report_progress bs i
             (save_cursor E p
                (commit_annotation E i (the (fst (process_image E p)))
                   (say (Processing i p # snd (process_image E p)) s)))"
  using assms
  by (cases "process_image E p")
     (simp add: processing_fails_iff annotate_record_def Let_def)

lemma annotate_record_db:
  "db (annotate_record E bs (i, p) s) =
     (if processing_fails E p then db s
      else save_last_processed p (now_at E (Suc (clock s)))
             (update_annotation DEFAULT_MODEL (the (fst (process_image E p)))
                (now_at E (clock s)) i (db s)))"
  by (simp add: annotate_record_fails annotate_record_succeeds save_cursor_def
      commit_annotation_def)

lemma annotate_record_clock:
  "clock (annotate_record E bs (i, p) s) =
     (if processing_fails E p then clock s else Suc (Suc (clock s)))"
  by (simp add: annotate_record_fails annotate_record_succeeds save_cursor_def
      commit_annotation_def)

lemma annotate_record_count:
  "processed_count (annotate_record E bs (i, p) s) =
     (if processing_fails E p then processed_count s else processed_count s + 1)"
  by (simp add: annotate_record_fails annotate_record_succeeds save_cursor_def
      commit_annotation_def)

lemma annotate_record_output:
  "\<exists>es. output (annotate_record E bs (i, p) s) =
          output s @ Processing i p # snd (process_image E p) @
            (if processing_fails E p then [SkippedRecord i] else es) \<and>
        (\<forall>e \<in> set es. is_report e)"
proof (cases "processing_fails E p")
  case True
  then show ?thesis by (intro exI [of _ "[]"]) (simp add: annotate_record_fails)
next
  case False
  let ?s = "save_cursor E p (commit_annotation E i (the (fst (process_image E p)))
              (say (Processing i p # snd (process_image E p)) s))"
  obtain es where "output (report_progress bs i ?s) = output ?s @ es" "\<forall>e \<in> set es. is_report e"
    using report_progress_output by blast
  moreover have "output ?s = output s @ Processing i p # snd (process_image E p)"
    by (simp add: save_cursor_def commit_annotation_def)
  ultimately show ?thesis
    using False by (auto simp: annotate_record_succeeds)
qed

lemma annotate_record_events:
  "processing_events (output (annotate_record E bs (i, p) s)) =
     processing_events (output s) @ [(i, p)]"
proof -
  obtain es where "output (annotate_record E bs (i, p) s) =
          output s @ Processing i p # snd (process_image E p) @
            (if processing_fails E p then [SkippedRecord i] else es)"
     "\<forall>e \<in> set es. is_report e"
    using annotate_record_output by blast
  then show ?thesis
    by (simp add: processing_events_append process_image_printed processing_events_reports)
qed

lemma fold_annotate_events:
  "processing_events (output (fold (annotate_record E bs) sel s)) =
     processing_events (output s) @ sel"
proof (induction sel arbitrary: s)
  case Nil
  then show ?case by simp
next
  case (Cons rp sel)
  obtain i p where rp: "rp = (i, p)" by (cases rp)
  show ?case by (simp add: rp Cons.IH annotate_record_events)
qed

lemma run_events:
  "processing_events (output (process_unprocessed_records E bs d k)) = select_unprocessed d"
  by (simp add: process_unprocessed_records_def Let_def fold_annotate_events
      processing_events_append)

lemma run_db:
  "db (process_unprocessed_records E bs d k) =
     db (fold (annotate_record E (case bs of None \<Rightarrow> DEFAULT_BATCH_SIZE | Some b \<Rightarrow> b))
           (select_unprocessed d)
           \<lparr>db = d, clock = k, output = [Found (length (select_unprocessed d))],
            processed_count = 0\<rparr>)"
  by (simp add: process_unprocessed_records_def Let_def)

text \<open>The query.\<close>

lemma select_unprocessed_pending:
  "select_unprocessed d =
     map (\<lambda>r. (rec_id r, image_path r)) (sort_key rec_id (filter pending (images d)))"
  by (simp add: select_unprocessed_def pending_def [abs_def])

lemma select_unprocessed_ids:
  assumes "distinct (map rec_id (images d))"
  shows "sorted (map fst (select_unprocessed d)) \<and> distinct (map fst (select_unprocessed d))"
proof -
  have m: "map fst (select_unprocessed d) =
        map rec_id (sort_key rec_id (filter pending (images d)))"
    by (simp add: select_unprocessed_pending comp_def)
  have "distinct (map rec_id (filter pending (images d)))"
    using assms by (rule distinct_map_filter)
  then have "distinct (map rec_id (sort_key rec_id (filter pending (images d))))"
    by (simp add: distinct_map)
  then show ?thesis unfolding m by simp
qed

lemma select_unprocessed_mem:
  assumes "distinct (map rec_id (images d))" and "r \<in> set (images d)"
  shows "(rec_id r, image_path r) \<in> set (select_unprocessed d) \<longleftrightarrow> pending r"
proof
  assume "(rec_id r, image_path r) \<in> set (select_unprocessed d)"
  then obtain r' where r': "r' \<in> set (images d)" "pending r'" "rec_id r' = rec_id r"
    by (auto simp: select_unprocessed_pending)
  from assms(1) have "inj_on rec_id (set (images d))" by (simp add: distinct_map)
  with r' assms(2) have "r' = r" by (auto dest: inj_onD)
  with r' show "pending r" by simp
next
  assume "pending r"
  with assms(2) show "(rec_id r, image_path r) \<in> set (select_unprocessed d)"
    by (auto simp: select_unprocessed_pending)
qed

text \<open>
  C1. A run takes up exactly the pending records of the store: a record of the
  store is processed if and only if its \<open>updated_when\<close> is null and its
  \<open>skipped\<close> is 0, and everything processed is such a record.
\<close>

theorem annotator_selects_pending:
  assumes "distinct (map rec_id (images d))"
  shows "(\<forall>r \<in> set (images d).
            (rec_id r, image_path r)
              \<in> set (processing_events (output (process_unprocessed_records E bs d k)))
            \<longleftrightarrow> pending r) \<and>
         (\<forall>ip \<in> set (processing_events (output (process_unprocessed_records E bs d k))).
            \<exists>r \<in> set (images d). rec_id r = fst ip \<and> image_path r = snd ip \<and>
               updated_when r = None \<and> skipped r = Some 0)"
proof (intro conjI ballI)
  fix r assume "r \<in> set (images d)"
  with assms show "(rec_id r, image_path r)
        \<in> set (processing_events (output (process_unprocessed_records E bs d k)))
      \<longleftrightarrow> pending r"
    unfolding run_events by (rule select_unprocessed_mem)
next
  fix ip assume "ip \<in> set (processing_events (output (process_unprocessed_records E bs d k)))"
  then have "ip \<in> set (select_unprocessed d)" by (simp only: run_events)
  then show "\<exists>r \<in> set (images d). rec_id r = fst ip \<and> image_path r = snd ip \<and>
               updated_when r = None \<and> skipped r = Some 0"
    by (auto simp: select_unprocessed_def)
qed

theorem annotator_selects_pending_witness:
  "(1, ''t/c/png/a.png'')
     \<in> set (processing_events
              (output (process_unprocessed_records example_env None example_scanned 1))) \<and>
   (3, ''t/c/png/c.png'')
     \<notin> set (processing_events
              (output (process_unprocessed_records example_env None
                 (example_scanned\<lparr>images := images example_scanned @
                    [\<lparr>collection = ''c'', type = ''png'', file = ''c'', filename = ''c.png'',
                      rec_id = 3, image_path = ''t/c/png/c.png'', model = None, text = None,
                      skipped = Some 1, created_when = 100, scanned_when = 100,
                      updated_when = None\<rparr>]\<rparr>) 1)))"
proof -
  let ?a = "\<lparr>collection = ''c'', type = ''png'', file = ''a'', filename = ''a.png'',
          rec_id = 1, image_path = ''t/c/png/a.png'', model = None, text = None,
          skipped = Some 0, created_when = 100, scanned_when = 100,
          updated_when = None\<rparr>"
  let ?c = "\<lparr>collection = ''c'', type = ''png'', file = ''c'', filename = ''c.png'',
                      rec_id = 3, image_path = ''t/c/png/c.png'', model = None, text = None,
                      skipped = Some 1, created_when = 100, scanned_when = 100,
                      updated_when = None\<rparr>"
  let ?d = "example_scanned\<lparr>images := images example_scanned @ [?c]\<rparr>"
  have d1: "distinct (map rec_id (images example_scanned))"
    by (simp add: example_scanned_def)
  have m1: "?a \<in> set (images example_scanned)"
    by (simp add: example_scanned_def)
  have p1: "pending ?a" by (simp add: pending_def)
  from annotator_selects_pending [OF d1, of example_env None 1, THEN conjunct1, rule_format, OF m1]
    p1
  have a: "(1, ''t/c/png/a.png'')
     \<in> set (processing_events
              (output (process_unprocessed_records example_env None example_scanned 1)))"
    by simp
  have d2: "distinct (map rec_id (images ?d))"
    by (simp add: example_scanned_def)
  have m2: "?c \<in> set (images ?d)" by simp
  have p2: "\<not> pending ?c" by (simp add: pending_def)
  from annotator_selects_pending [OF d2, of example_env None 1, THEN conjunct1, rule_format, OF m2]
    p2
  have b: "(3, ''t/c/png/c.png'')
     \<notin> set (processing_events (output (process_unprocessed_records example_env None ?d 1)))"
    by simp
  from a b show ?thesis by (rule conjI)
qed

text \<open>
  C4. A run processes the pending records of the store, all of them and nothing
  else, each once, in strictly ascending order of their ids; and the order is
  determined by the pending set alone: any run on a store with the same pending
  records, whatever the service, the clock and the batch size, processes the same
  records in the same order.
\<close>

theorem annotator_ascending_order:
  assumes "distinct (map rec_id (images d))"
  shows "sorted_wrt (<)
           (map fst (processing_events (output (process_unprocessed_records E bs d k)))) \<and>
         set (processing_events (output (process_unprocessed_records E bs d k))) =
           (\<lambda>r. (rec_id r, image_path r)) ` {r \<in> set (images d). pending r} \<and>
         length (processing_events (output (process_unprocessed_records E bs d k))) =
           length (filter pending (images d)) \<and>
         (\<forall>(d'::database) E' bs' k'.
            distinct (map rec_id (images d')) \<and>
            set (filter pending (images d')) = set (filter pending (images d)) \<longrightarrow>
            processing_events (output (process_unprocessed_records E' bs' d' k')) =
            processing_events (output (process_unprocessed_records E bs d k)))"
proof (intro conjI allI impI)
  show "sorted_wrt (<)
          (map fst (processing_events (output (process_unprocessed_records E bs d k))))"
    unfolding run_events using select_unprocessed_ids [OF assms]
    by (simp add: strict_sorted_iff)
next
  show "set (processing_events (output (process_unprocessed_records E bs d k))) =
           (\<lambda>r. (rec_id r, image_path r)) ` {r \<in> set (images d). pending r}"
    unfolding run_events select_unprocessed_pending by simp
next
  show "length (processing_events (output (process_unprocessed_records E bs d k))) =
           length (filter pending (images d))"
    unfolding run_events select_unprocessed_pending by simp
next
  fix d' :: database and E' bs' k'
  assume h: "distinct (map rec_id (images d')) \<and>
             set (filter pending (images d')) = set (filter pending (images d))"
  let ?xs = "sort_key rec_id (filter pending (images d'))"
  let ?ys = "sort_key rec_id (filter pending (images d))"
  have dx: "distinct (map rec_id (filter pending (images d')))"
    using h by (intro distinct_map_filter) simp
  have dy: "distinct (map rec_id (filter pending (images d)))"
    using assms by (rule distinct_map_filter)
  have s: "set ?xs = set ?ys" using h by simp
  have "inj_on rec_id (set ?ys)" using dy by (simp add: distinct_map)
  then have "inj_on rec_id (set ?xs \<union> set ?ys)" using s by simp
  moreover have "sorted (map rec_id ?xs)" "sorted (map rec_id ?ys)" by simp_all
  moreover have "distinct (map rec_id ?xs)" using dx by (simp add: distinct_map)
  moreover have "distinct (map rec_id ?ys)" using dy by (simp add: distinct_map)
  ultimately have "?xs = ?ys"
    using s by (intro map_sorted_distinct_set_unique [of rec_id])
  then show "processing_events (output (process_unprocessed_records E' bs' d' k')) =
             processing_events (output (process_unprocessed_records E bs d k))"
    by (simp add: run_events select_unprocessed_pending)
qed

theorem annotator_ascending_order_witness:
  "sorted_wrt (<)
     (map fst (processing_events
                 (output (process_unprocessed_records example_env None example_scanned 1)))) \<and>
   (1, ''t/c/png/a.png'')
     \<in> set (processing_events
              (output (process_unprocessed_records example_env None example_scanned 1))) \<and>
   (2, ''t/c/png/b.png'')
     \<in> set (processing_events
              (output (process_unprocessed_records example_env None example_scanned 1))) \<and>
   length (processing_events
             (output (process_unprocessed_records example_env None example_scanned 1))) = 2 \<and>
   processing_events
     (output (process_unprocessed_records example_env (Some 3)
                (example_scanned\<lparr>images := rev (images example_scanned)\<rparr>) 7)) =
   processing_events (output (process_unprocessed_records example_env None example_scanned 1)) \<and>
   processing_events (output (process_unprocessed_records example_env None example_scanned 1)) =
     [(1, ''t/c/png/a.png''), (2, ''t/c/png/b.png'')]"
proof -
  let ?key = "\<lambda>r. (rec_id r, image_path r)"
  let ?a = "\<lparr>collection = ''c'', type = ''png'', file = ''a'', filename = ''a.png'',
          rec_id = 1, image_path = ''t/c/png/a.png'', model = None, text = None,
          skipped = Some 0, created_when = 100, scanned_when = 100,
          updated_when = None\<rparr>"
  let ?b = "\<lparr>collection = ''c'', type = ''png'', file = ''b'', filename = ''b.png'',
          rec_id = 2, image_path = ''t/c/png/b.png'', model = None, text = None,
          skipped = Some 0, created_when = 100, scanned_when = 100,
          updated_when = None\<rparr>"
  have d: "distinct (map rec_id (images example_scanned))"
    by (simp add: example_scanned_def)
  let ?d' = "example_scanned\<lparr>images := rev (images example_scanned)\<rparr>"
  have h: "distinct (map rec_id (images ?d')) \<and>
        set (filter pending (images ?d')) = set (filter pending (images example_scanned))"
    using d by (simp add: distinct_rev rev_map [symmetric])
  note t = annotator_ascending_order [OF d, of example_env None 1]
  note st = t [THEN conjunct2, THEN conjunct1]
  have pa: "?a \<in> {r \<in> set (images example_scanned). pending r}"
    by (simp add: example_scanned_def pending_def)
  have pb: "?b \<in> {r \<in> set (images example_scanned). pending r}"
    by (simp add: example_scanned_def pending_def)
  have ka: "(1, ''t/c/png/a.png'') = ?key ?a" by simp
  have kb: "(2, ''t/c/png/b.png'') = ?key ?b" by simp
  have ma: "(1, ''t/c/png/a.png'')
     \<in> set (processing_events
              (output (process_unprocessed_records example_env None example_scanned 1)))"
    unfolding st using ka pa by (rule image_eqI [of _ ?key ?a])
  have mb: "(2, ''t/c/png/b.png'')
     \<in> set (processing_events
              (output (process_unprocessed_records example_env None example_scanned 1)))"
    unfolding st using kb pb by (rule image_eqI [of _ ?key ?b])
  have len: "length (processing_events
             (output (process_unprocessed_records example_env None example_scanned 1))) = 2"
    unfolding t [THEN conjunct2, THEN conjunct2, THEN conjunct1]
    by (simp add: example_scanned_def pending_def)
  have v: "processing_events
      (output (process_unprocessed_records example_env None example_scanned 1)) =
     [(1, ''t/c/png/a.png''), (2, ''t/c/png/b.png'')]"
    by code_simp
  from t [THEN conjunct1] ma mb len
    t [THEN conjunct2, THEN conjunct2, THEN conjunct2, rule_format, OF h,
       of example_env "Some 3" 7] v
  show ?thesis by (intro conjI)
qed

lemma annotate_record_output_filter:
  "filter (\<lambda>e. \<not> is_report e) (output (annotate_record E bs (i, p) s)) =
     filter (\<lambda>e. \<not> is_report e) (output s) @ Processing i p # snd (process_image E p) @
       (if processing_fails E p then [SkippedRecord i] else [])"
proof -
  obtain es where "output (annotate_record E bs (i, p) s) =
          output s @ Processing i p # snd (process_image E p) @
            (if processing_fails E p then [SkippedRecord i] else es)"
     "\<forall>e \<in> set es. is_report e"
    using annotate_record_output by blast
  moreover have "filter (\<lambda>e. \<not> is_report e) (snd (process_image E p)) = snd (process_image E p)"
    using process_image_printed [of E p] by (simp add: filter_id_conv)
  ultimately show ?thesis by (simp add: filter_empty_conv)
qed

lemma fold_annotate_batch_size:
  assumes "db s = db s'" and "clock s = clock s'"
    and "processed_count s = processed_count s'"
    and "filter (\<lambda>e. \<not> is_report e) (output s) = filter (\<lambda>e. \<not> is_report e) (output s')"
  shows "db (fold (annotate_record E b1) sel s) = db (fold (annotate_record E b2) sel s') \<and>
         clock (fold (annotate_record E b1) sel s) = clock (fold (annotate_record E b2) sel s') \<and>
         processed_count (fold (annotate_record E b1) sel s) =
           processed_count (fold (annotate_record E b2) sel s') \<and>
         filter (\<lambda>e. \<not> is_report e) (output (fold (annotate_record E b1) sel s)) =
           filter (\<lambda>e. \<not> is_report e) (output (fold (annotate_record E b2) sel s'))"
  using assms
proof (induction sel arbitrary: s s')
  case Nil
  then show ?case by simp
next
  case (Cons rp sel)
  obtain i p where rp: "rp = (i, p)" by (cases rp)
  have "db (annotate_record E b1 rp s) = db (annotate_record E b2 rp s')"
    "clock (annotate_record E b1 rp s) = clock (annotate_record E b2 rp s')"
    "processed_count (annotate_record E b1 rp s) = processed_count (annotate_record E b2 rp s')"
    "filter (\<lambda>e. \<not> is_report e) (output (annotate_record E b1 rp s)) =
     filter (\<lambda>e. \<not> is_report e) (output (annotate_record E b2 rp s'))"
    unfolding rp annotate_record_db annotate_record_clock annotate_record_count
      annotate_record_output_filter
    using Cons.prems by simp_all
  from Cons.IH [OF this] show ?case by simp
qed

lemma run_batch_size:
  "db (process_unprocessed_records E b1 d k) = db (process_unprocessed_records E b2 d k) \<and>
   clock (process_unprocessed_records E b1 d k) = clock (process_unprocessed_records E b2 d k) \<and>
   processed_count (process_unprocessed_records E b1 d k) =
     processed_count (process_unprocessed_records E b2 d k) \<and>
   filter (\<lambda>e. \<not> is_report e) (output (process_unprocessed_records E b1 d k)) =
     filter (\<lambda>e. \<not> is_report e) (output (process_unprocessed_records E b2 d k))"
proof -
  let ?s0 = "\<lparr>db = d, clock = k, output = [Found (length (select_unprocessed d))],
              processed_count = 0\<rparr>"
  let ?c = "\<lambda>bs. case bs of None \<Rightarrow> DEFAULT_BATCH_SIZE | Some b \<Rightarrow> b"
  have "db ?s0 = db ?s0" "clock ?s0 = clock ?s0" "processed_count ?s0 = processed_count ?s0"
    "filter (\<lambda>e. \<not> is_report e) (output ?s0) = filter (\<lambda>e. \<not> is_report e) (output ?s0)"
    by simp_all
  from fold_annotate_batch_size [OF this, of E "?c b1" "select_unprocessed d" "?c b2"]
  show ?thesis
    by (simp add: process_unprocessed_records_def Let_def)
qed

text \<open>
  C8. The batch size reaches only the progress report. Two runs that differ in
  nothing but the batch size end with the same database file (rows and cursor),
  the same number of clock readings and the same count, and print the same
  output apart from the lines of the progress report; the same holds for
  \<open>Generate\<close>.
\<close>

theorem batch_size_only_logging:
  "db (process_unprocessed_records E b1 d k) = db (process_unprocessed_records E b2 d k) \<and>
   clock (process_unprocessed_records E b1 d k) = clock (process_unprocessed_records E b2 d k) \<and>
   processed_count (process_unprocessed_records E b1 d k) =
     processed_count (process_unprocessed_records E b2 d k) \<and>
   filter (\<lambda>e. \<not> is_report e) (output (process_unprocessed_records E b1 d k)) =
     filter (\<lambda>e. \<not> is_report e) (output (process_unprocessed_records E b2 d k)) \<and>
   map_sum id db (Generate E b1 d k) = map_sum id db (Generate E b2 d k) \<and>
   map_sum id (\<lambda>s. filter (\<lambda>e. \<not> is_report e) (output s)) (Generate E b1 d k) =
     map_sum id (\<lambda>s. filter (\<lambda>e. \<not> is_report e) (output s)) (Generate E b2 d k)"
proof -
  have g: "map_sum id db (Generate E b1 d k) = map_sum id db (Generate E b2 d k) \<and>
   map_sum id (\<lambda>s. filter (\<lambda>e. \<not> is_report e) (output s)) (Generate E b1 d k) =
     map_sum id (\<lambda>s. filter (\<lambda>e. \<not> is_report e) (output s)) (Generate E b2 d k)"
  proof (cases "scan_and_update_database E d k")
    case (Pair dk e)
    obtain d' k' where dk: "dk = (d', k')" by (cases dk)
    show ?thesis
    proof (cases e)
      case None
      with Pair dk show ?thesis
        using run_batch_size [of E _ d' k']
        by (simp add: Generate_def Let_def)
    next
      case (Some a)
      with Pair dk show ?thesis by (simp add: Generate_def Let_def)
    qed
  qed
  with run_batch_size [of E b1 d k b2] show ?thesis by simp
qed

theorem batch_size_only_logging_witness:
  "db (process_unprocessed_records example_env (Some 1) example_scanned 1) =
     db (process_unprocessed_records example_env (Some 0) example_scanned 1) \<and>
   output (process_unprocessed_records example_env (Some 1) example_scanned 1) \<noteq>
     output (process_unprocessed_records example_env (Some 0) example_scanned 1)"
proof -
  have "output (process_unprocessed_records example_env (Some 1) example_scanned 1) =
      [Found 2, Processing 1 ''t/c/png/a.png'',
       ErrorProcessingImage ''t/c/png/a.png'' OSError, SkippedRecord 1,
       Processing 2 ''t/c/png/b.png'', ProcessedSoFar 1, ProcessingComplete 1]"
    by code_simp
  moreover have "output (process_unprocessed_records example_env (Some 0) example_scanned 1) =
      [Found 2, Processing 1 ''t/c/png/a.png'',
       ErrorProcessingImage ''t/c/png/a.png'' OSError, SkippedRecord 1,
       Processing 2 ''t/c/png/b.png'', ErrorProcessingRecord 2 ZeroDivisionError,
       ProcessingComplete 1]"
    by code_simp
  ultimately have "output (process_unprocessed_records example_env (Some 1) example_scanned 1) \<noteq>
     output (process_unprocessed_records example_env (Some 0) example_scanned 1)"
    by simp
  with batch_size_only_logging [of example_env "Some 1" example_scanned 1 "Some 0", THEN conjunct1]
  show ?thesis by (rule conjI)
qed

text \<open>Rows under the update of one record.\<close>

lemma update_annotation_row:
  assumes "r \<in> set (images (update_annotation m t now i d))" and "rec_id r = i"
  shows "model r = Some m \<and> text r = Some t \<and> updated_when r = Some now"
proof -
  from assms(1) obtain r0 where r0:
    "r = (if rec_id r0 = i
          then r0\<lparr>model := Some m, text := Some t, updated_when := Some now\<rparr> else r0)"
    unfolding update_annotation_def by fastforce
  show ?thesis
  proof (cases "rec_id r0 = i")
    case True
    with r0 show ?thesis by simp
  next
    case False
    with r0 assms(2) show ?thesis by simp
  qed
qed

lemma filter_map_other_id:
  assumes "i \<noteq> j" and "\<And>r. rec_id (f r) = rec_id r"
  shows "filter (\<lambda>r. rec_id r = j) (map (\<lambda>r. if rec_id r = i then f r else r) xs) =
         filter (\<lambda>r. rec_id r = j) xs"
  using assms by (induction xs) auto

lemma update_annotation_other:
  "i \<noteq> j \<Longrightarrow>
   filter (\<lambda>r. rec_id r = j) (images (update_annotation m t now i d)) =
   filter (\<lambda>r. rec_id r = j) (images d)"
  by (simp add: update_annotation_def filter_map_other_id)

lemma images_save_last_processed [simp]:
  "images (save_last_processed p now d) = images d"
  by (simp add: save_last_processed_def)

lemma row_property_filter:
  "(\<forall>r \<in> set xs. rec_id r = j \<longrightarrow> P r) \<longleftrightarrow> (\<forall>r \<in> set (filter (\<lambda>r. rec_id r = j) xs). P r)"
  by auto

lemma fold_annotate_unchanged:
  assumes "\<forall>ip \<in> set sel. \<not> processing_fails E (snd ip) \<longrightarrow> fst ip \<noteq> j"
  shows "filter (\<lambda>r. rec_id r = j) (images (db (fold (annotate_record E bs) sel s))) =
         filter (\<lambda>r. rec_id r = j) (images (db s))"
  using assms
proof (induction sel arbitrary: s)
  case Nil
  then show ?case by simp
next
  case (Cons rp sel)
  obtain i p where rp: "rp = (i, p)" by (cases rp)
  have "filter (\<lambda>r. rec_id r = j) (images (db (annotate_record E bs (i, p) s))) =
        filter (\<lambda>r. rec_id r = j) (images (db s))"
  proof (cases "processing_fails E p")
    case True
    then show ?thesis by (simp add: annotate_record_db)
  next
    case False
    with Cons.prems rp have "i \<noteq> j" by simp
    with False show ?thesis by (simp add: annotate_record_db update_annotation_other)
  qed
  moreover have "filter (\<lambda>r. rec_id r = j)
        (images (db (fold (annotate_record E bs) sel (annotate_record E bs (i, p) s)))) =
      filter (\<lambda>r. rec_id r = j) (images (db (annotate_record E bs (i, p) s)))"
    using Cons.prems by (intro Cons.IH) simp
  ultimately show ?case by (simp add: rp)
qed

lemma fold_annotate_annotated:
  assumes "distinct (map fst sel)" and "(j, q) \<in> set sel" and "\<not> processing_fails E q"
    and "r \<in> set (images (db (fold (annotate_record E bs) sel s)))" and "rec_id r = j"
  shows "model r = Some DEFAULT_MODEL \<and> text r = fst (process_image E q) \<and>
         updated_when r \<noteq> None"
  using assms
proof (induction sel arbitrary: s)
  case Nil
  then show ?case by simp
next
  case (Cons rp sel)
  obtain i p where rp: "rp = (i, p)" by (cases rp)
  let ?s1 = "annotate_record E bs (i, p) s"
  show ?case
  proof (cases "(j, q) \<in> set sel")
    case True
    from Cons.prems(1) have "distinct (map fst sel)" by simp
    from Cons.IH [OF this True Cons.prems(3) _ Cons.prems(5), of ?s1] Cons.prems(4)
    show ?thesis by (simp add: rp)
  next
    case False
    with Cons.prems(2) rp have ij: "i = j" "p = q" by simp_all
    from Cons.prems(1) rp ij have "\<forall>ip \<in> set sel. fst ip \<noteq> j" by auto
    then have "filter (\<lambda>r. rec_id r = j) (images (db (fold (annotate_record E bs) sel ?s1))) =
        filter (\<lambda>r. rec_id r = j) (images (db ?s1))"
      by (intro fold_annotate_unchanged) simp
    moreover have "r \<in> set (filter (\<lambda>r. rec_id r = j)
          (images (db (fold (annotate_record E bs) sel ?s1))))"
      using Cons.prems(4,5) by (simp add: rp)
    ultimately have "r \<in> set (filter (\<lambda>r. rec_id r = j) (images (db ?s1)))"
      by simp
    then have m: "r \<in> set (images (update_annotation DEFAULT_MODEL (the (fst (process_image E q)))
        (now_at E (clock s)) j (db s)))"
      using Cons.prems(3) ij by (simp add: annotate_record_db)
    from Cons.prems(3) obtain t where t: "fst (process_image E q) = Some t"
      by (auto simp: processing_fails_iff truthy_def split: option.splits)
    from update_annotation_row [OF m Cons.prems(5)] show ?thesis
      by (simp add: t)
  qed
qed

text \<open>
  C2. On success the loop body is: update of the record with its commit, then
  the cursor update, then the progress report. In the state between the first two
  (where a crash would leave the file) the record carries the model, the text and
  the clock reading, the cursor is what it was, the record is not pending, and no
  later run, whatever its environment, takes the record up again. The completed
  body then sets the cursor to the record's path and leaves the rows as they were
  after the commit.
\<close>

theorem commit_before_cursor:
  assumes "fst (process_image E p) = Some t" and "t \<noteq> []"
  shows "annotate_record E bs (i, p) s =
           report_progress bs i
             (save_cursor E p
                (commit_annotation E i t (say (Processing i p # snd (process_image E p)) s))) \<and>
         processing_count
           (db (commit_annotation E i t (say (Processing i p # snd (process_image E p)) s)))
           = processing_count (db s) \<and>
         (\<forall>r \<in> set (images
              (db (commit_annotation E i t (say (Processing i p # snd (process_image E p)) s)))).
            rec_id r = i \<longrightarrow>
              model r = Some DEFAULT_MODEL \<and> text r = Some t \<and>
              updated_when r = Some (now_at E (clock s)) \<and> \<not> pending r) \<and>
         (\<forall>E' bs' k'.
            i \<notin> fst ` set (processing_events (output (process_unprocessed_records E' bs'
              (db (commit_annotation E i t (say (Processing i p # snd (process_image E p)) s)))
              k')))) \<and>
         processing_count (db (annotate_record E bs (i, p) s)) =
           map_option (\<lambda>row. (Some p, Some (now_at E (Suc (clock s))))) (processing_count (db s)) \<and>
         images (db (annotate_record E bs (i, p) s)) =
           images (db (commit_annotation E i t (say (Processing i p # snd (process_image E p)) s)))"
proof -
  let ?c = "commit_annotation E i t (say (Processing i p # snd (process_image E p)) s)"
  have nf: "\<not> processing_fails E p"
    using assms by (simp add: processing_fails_iff truthy_def)
  have a: "annotate_record E bs (i, p) s = report_progress bs i (save_cursor E p ?c)"
    using annotate_record_succeeds [OF nf] assms(1) by simp
  have dbc: "db ?c = update_annotation DEFAULT_MODEL t (now_at E (clock s)) i (db s)"
    by (simp add: commit_annotation_def)
  have b: "processing_count (db ?c) = processing_count (db s)"
    by (simp add: dbc update_annotation_def)
  have c: "\<forall>r \<in> set (images (db ?c)). rec_id r = i \<longrightarrow>
              model r = Some DEFAULT_MODEL \<and> text r = Some t \<and>
              updated_when r = Some (now_at E (clock s)) \<and> \<not> pending r"
    unfolding dbc using update_annotation_row by (fastforce simp: pending_def)
  have d: "\<forall>E' bs' k'.
            i \<notin> fst ` set (processing_events (output (process_unprocessed_records E' bs' (db ?c) k')))"
  proof (intro allI notI)
    fix E' bs' k'
    assume "i \<in> fst ` set (processing_events (output (process_unprocessed_records E' bs' (db ?c) k')))"
    then obtain r where "r \<in> set (images (db ?c))" "rec_id r = i" "pending r"
      by (auto simp: run_events select_unprocessed_pending)
    with c show False by blast
  qed
  have e: "processing_count (db (annotate_record E bs (i, p) s)) =
           map_option (\<lambda>row. (Some p, Some (now_at E (Suc (clock s))))) (processing_count (db s))"
    unfolding a by (simp add: save_cursor_def commit_annotation_def save_last_processed_def
        update_annotation_def)
  have f: "images (db (annotate_record E bs (i, p) s)) = images (db ?c)"
    unfolding a by (simp add: save_cursor_def)
  from a b c d e f show ?thesis by (intro conjI)
qed

text \<open>
  C3. When the processing of a pending record fails (unreadable file, service
  error, no text or empty text) the run leaves the rows of that id exactly as they
  were, so still pending, prints the diagnostic for it, and still takes up every
  selected record; every selected record whose processing succeeds, before or
  after the failing one, ends annotated with the text the service returned.
\<close>

theorem failure_isolation:
  assumes "distinct (map rec_id (images d))"
      and "(i, p) \<in> set (select_unprocessed d)"
      and "processing_fails E p"
  shows "filter (\<lambda>r. rec_id r = i) (images (db (process_unprocessed_records E bs d k))) =
           filter (\<lambda>r. rec_id r = i) (images d) \<and>
         (\<forall>r \<in> set (images (db (process_unprocessed_records E bs d k))).
            rec_id r = i \<longrightarrow> pending r) \<and>
         SkippedRecord i \<in> set (output (process_unprocessed_records E bs d k)) \<and>
         processing_events (output (process_unprocessed_records E bs d k)) =
           select_unprocessed d \<and>
         (\<forall>jq \<in> set (select_unprocessed d). \<not> processing_fails E (snd jq) \<longrightarrow>
            (\<forall>r \<in> set (images (db (process_unprocessed_records E bs d k))).
               rec_id r = fst jq \<longrightarrow>
                 model r = Some DEFAULT_MODEL \<and> text r = fst (process_image E (snd jq)) \<and>
                 updated_when r \<noteq> None))"
proof -
  let ?bs = "case bs of None \<Rightarrow> DEFAULT_BATCH_SIZE | Some b \<Rightarrow> b"
  let ?sel = "select_unprocessed d"
  let ?s0 = "\<lparr>db = d, clock = k, output = [Found (length ?sel)], processed_count = 0\<rparr>"
  have dis: "distinct (map fst ?sel)"
    using select_unprocessed_ids [OF assms(1)] by simp
  have "\<forall>ip \<in> set ?sel. \<not> processing_fails E (snd ip) \<longrightarrow> fst ip \<noteq> i"
  proof (intro ballI impI notI)
    fix ip assume ip: "ip \<in> set ?sel" "\<not> processing_fails E (snd ip)" "fst ip = i"
    from dis have "inj_on fst (set ?sel)" by (simp add: distinct_map)
    from inj_onD [OF this _ ip(1) assms(2)] ip(3) have "ip = (i, p)" by simp
    with ip(2) assms(3) show False by simp
  qed
  then have a: "filter (\<lambda>r. rec_id r = i) (images (db (process_unprocessed_records E bs d k))) =
           filter (\<lambda>r. rec_id r = i) (images d)"
    unfolding run_db using fold_annotate_unchanged [of ?sel E i ?bs ?s0] by simp
  have "\<forall>r \<in> set (filter (\<lambda>r. rec_id r = i) (images d)). pending r"
  proof
    fix r assume "r \<in> set (filter (\<lambda>r. rec_id r = i) (images d))"
    then have r: "r \<in> set (images d)" "rec_id r = i" by simp_all
    from assms(2) obtain r' where r': "r' \<in> set (images d)" "pending r'" "rec_id r' = i"
      by (auto simp: select_unprocessed_pending)
    from assms(1) have "inj_on rec_id (set (images d))" by (simp add: distinct_map)
    from inj_onD [OF this _ r(1) r'(1)] r(2) r'(3) have "r = r'" by simp
    with r' show "pending r" by simp
  qed
  then have b: "\<forall>r \<in> set (images (db (process_unprocessed_records E bs d k))).
            rec_id r = i \<longrightarrow> pending r"
    unfolding row_property_filter a .
  have "SkippedRecord i \<in> set (output (fold (annotate_record E ?bs) sel s))"
    if "(i, p) \<in> set sel \<or> SkippedRecord i \<in> set (output s)" for sel s
    using that
  proof (induction sel arbitrary: s)
    case Nil
    then show ?case by simp
  next
    case (Cons rp sel)
    obtain j q where rp: "rp = (j, q)" by (cases rp)
    obtain es where es: "output (annotate_record E ?bs (j, q) s) =
          output s @ Processing j q # snd (process_image E q) @
            (if processing_fails E q then [SkippedRecord j] else es)"
      using annotate_record_output by blast
    have "(i, p) \<in> set sel \<or> SkippedRecord i \<in> set (output (annotate_record E ?bs (j, q) s))"
      using Cons.prems rp assms(3) unfolding es by auto
    from Cons.IH [OF this] show ?case by (simp add: rp)
  qed
  from this [of ?sel ?s0] assms(2)
  have c: "SkippedRecord i \<in> set (output (process_unprocessed_records E bs d k))"
    by (simp add: process_unprocessed_records_def Let_def)
  have e: "\<forall>jq \<in> set ?sel. \<not> processing_fails E (snd jq) \<longrightarrow>
            (\<forall>r \<in> set (images (db (process_unprocessed_records E bs d k))).
               rec_id r = fst jq \<longrightarrow>
                 model r = Some DEFAULT_MODEL \<and> text r = fst (process_image E (snd jq)) \<and>
                 updated_when r \<noteq> None)"
  proof (intro ballI impI)
    fix jq r
    assume jq: "jq \<in> set ?sel" "\<not> processing_fails E (snd jq)"
      and r: "r \<in> set (images (db (process_unprocessed_records E bs d k)))" "rec_id r = fst jq"
    from jq(1) have m: "(fst jq, snd jq) \<in> set ?sel" by simp
    from r(1) have r': "r \<in> set (images (db (fold (annotate_record E ?bs) ?sel ?s0)))"
      by (simp only: run_db)
    from fold_annotate_annotated [OF dis m jq(2) r' r(2)]
    show "model r = Some DEFAULT_MODEL \<and> text r = fst (process_image E (snd jq)) \<and>
                 updated_when r \<noteq> None" .
  qed
  from a b c run_events [of E bs d k] e show ?thesis by (intro conjI)
qed

lemma example_caption:
  "fst (process_image example_env ''t/c/png/b.png'') = Some ''a caption''"
  by code_simp

lemma example_selected:
  "select_unprocessed example_scanned = [(1, ''t/c/png/a.png''), (2, ''t/c/png/b.png'')]"
  by code_simp

theorem commit_before_cursor_witness:
  "processing_count
     (db (commit_annotation example_env 2 ''a caption''
            (say (Processing 2 ''t/c/png/b.png'' # snd (process_image example_env ''t/c/png/b.png''))
               \<lparr>db = example_scanned, clock = 1, output = [], processed_count = 0\<rparr>)))
     = Some (None, None) \<and>
   processing_count
     (db (annotate_record example_env 10 (2, ''t/c/png/b.png'')
            \<lparr>db = example_scanned, clock = 1, output = [], processed_count = 0\<rparr>))
     = Some (Some ''t/c/png/b.png'', Some 102)"
proof -
  let ?s = "\<lparr>db = example_scanned, clock = 1, output = [], processed_count = 0\<rparr>"
  have ne: "''a caption'' \<noteq> []" by simp
  note t = commit_before_cursor [OF example_caption ne, of 10 2 ?s]
  have a: "processing_count
     (db (commit_annotation example_env 2 ''a caption''
            (say (Processing 2 ''t/c/png/b.png'' # snd (process_image example_env ''t/c/png/b.png''))
               ?s))) = Some (None, None)"
    using t [THEN conjunct2, THEN conjunct1] by (simp add: example_scanned_def)
  have b: "processing_count (db (annotate_record example_env 10 (2, ''t/c/png/b.png'') ?s))
     = Some (Some ''t/c/png/b.png'', Some 102)"
    using t [THEN conjunct2, THEN conjunct2, THEN conjunct2, THEN conjunct2, THEN conjunct1]
    by (simp add: example_scanned_def example_env_def)
  from a b show ?thesis by (rule conjI)
qed

theorem failure_isolation_witness:
  "filter (\<lambda>r. rec_id r = 1)
     (images (db (process_unprocessed_records example_env None example_scanned 1))) =
     filter (\<lambda>r. rec_id r = 1) (images example_scanned) \<and>
   SkippedRecord 1 \<in> set (output (process_unprocessed_records example_env None example_scanned 1)) \<and>
   map text (filter (\<lambda>r. rec_id r = 2)
     (images (db (process_unprocessed_records example_env None example_scanned 1)))) =
     [Some ''a caption'']"
proof -
  have d: "distinct (map rec_id (images example_scanned))"
    by (simp add: example_scanned_def)
  have m: "(1, ''t/c/png/a.png'') \<in> set (select_unprocessed example_scanned)"
    by (simp add: example_selected)
  have f: "processing_fails example_env ''t/c/png/a.png''"
    by (simp add: processing_fails_def example_env_def)
  note t = failure_isolation [OF d m f, of None 1]
  have c: "map text (filter (\<lambda>r. rec_id r = 2)
     (images (db (process_unprocessed_records example_env None example_scanned 1)))) =
     [Some ''a caption'']"
    by code_simp
  from t [THEN conjunct1] t [THEN conjunct2, THEN conjunct2, THEN conjunct1] c
  show ?thesis by (intro conjI)
qed

end
